theory Spec2Isabelle
  imports Complex_Main "HOL-Library.Multiset"
begin

section \<open>Data model\<close>

text \<open>
  The interfaces \<open>Cut\<close> and \<open>CutPlan\<close> and the type \<open>Unit\<close> of
  \<^verbatim>\<open>src/app/page.tsx\<close>. A JavaScript number holding a length is modelled as an exact
  real (the section on double arithmetic below models the rounding of the source, for
  the one claim that turns on it), one holding a count (a quantity, the number of
  extrusions) as an integer: the input fields build them with \<^verbatim>\<open>parseInt\<close>. The field \<^verbatim>\<open>length\<close> of a cut is
  called \<open>length_c\<close>, since \<open>length\<close> is the length of a list.
\<close>

record Cut =
  length_c :: real
  quantity :: int

record CutPlan =
  cuts :: "real list"
  waste :: real

datatype Unit = Mm | Cm | M | In | Ft | Yd

fun unitConversions :: "Unit \<Rightarrow> real" where
  "unitConversions Mm = 1"
| "unitConversions Cm = 10"
| "unitConversions M = 1000"
| "unitConversions In = 25.4"
| "unitConversions Ft = 304.8"
| "unitConversions Yd = 914.4"

section \<open>Unit conversion\<close>

definition convertToMm :: "Unit \<Rightarrow> real \<Rightarrow> real" where
  "convertToMm unit v = v * unitConversions unit"

definition convertFromMm :: "Unit \<Rightarrow> real \<Rightarrow> real" where
  "convertFromMm unit v = v / unitConversions unit"

definition getKerfInMm :: "real \<Rightarrow> Unit \<Rightarrow> real" where
  "getKerfInMm kerfWidth kerfUnit = kerfWidth * unitConversions kerfUnit"

section \<open>The kerf-aware allocator of page.tsx\<close>

text \<open>
  The inner \<^verbatim>\<open>while (cut.quantity > 0 && remainingLength >= cut.length)\<close>: the state
  is the cut (its quantity is decremented in place), the remaining length and the cuts
  pushed on the current bar so far.
\<close>

function place_while :: "real \<Rightarrow> Cut \<Rightarrow> real \<Rightarrow> real list \<Rightarrow> Cut \<times> real \<times> real list" where
  "place_while kerfWidthMm c remainingLength currentCuts =
     (if quantity c > 0 \<and> remainingLength \<ge> length_c c
      then place_while kerfWidthMm (c\<lparr>quantity := quantity c - 1\<rparr>)
             (remainingLength - length_c c)
             (currentCuts @ [length_c c - kerfWidthMm])
      else (c, remainingLength, currentCuts))"
  by pat_completeness auto
termination
  by (relation "measure (\<lambda>(k, c, r, cs). nat (quantity c))") auto

text \<open>
  The \<^verbatim>\<open>for (const cut of remainingCuts)\<close> of one bar. The loop mutates the cuts of
  the list, so the list is returned updated.
\<close>

fun for_cuts :: "real \<Rightarrow> Cut list \<Rightarrow> real \<Rightarrow> real list \<Rightarrow> Cut list \<times> real \<times> real list" where
  "for_cuts kerfWidthMm [] remainingLength currentCuts = ([], remainingLength, currentCuts)"
| "for_cuts kerfWidthMm (c # rest) remainingLength currentCuts =
     (case place_while kerfWidthMm c remainingLength currentCuts of
        (c', remainingLength', currentCuts') \<Rightarrow>
          (case for_cuts kerfWidthMm rest remainingLength' currentCuts' of
             (rest', remainingLength'', currentCuts'') \<Rightarrow>
               (c' # rest', remainingLength'', currentCuts'')))"

text \<open>
  The first \<^verbatim>\<open>while\<close> of \<^verbatim>\<open>calculateOptimalCutPlan\<close>: one bar per round, as long as
  bars are left and some cut has a positive quantity. It returns the index reached and
  the plans.
\<close>

function bars_loop :: "int \<Rightarrow> real \<Rightarrow> real \<Rightarrow> Cut list \<Rightarrow> int \<Rightarrow> CutPlan list \<Rightarrow> int \<times> CutPlan list" where
  "bars_loop numExtrusions stockLength kerfWidthMm remainingCuts currentExtrusionIndex plans =
     (if currentExtrusionIndex < numExtrusions \<and> list_ex (\<lambda>c. quantity c > 0) remainingCuts
      then (case for_cuts kerfWidthMm remainingCuts stockLength [] of
              (remainingCuts', remainingLength, currentCuts) \<Rightarrow>
                bars_loop numExtrusions stockLength kerfWidthMm remainingCuts'
                  (currentExtrusionIndex + 1)
                  (plans @ [\<lparr>cuts = currentCuts, waste = remainingLength\<rparr>]))
      else (currentExtrusionIndex, plans))"
  by pat_completeness auto
termination
  by (relation "measure (\<lambda>(n, s, k, rc, i, ps). nat (n - i))") auto

text \<open>The second \<^verbatim>\<open>while\<close>: the bars left are pushed as empty plans.\<close>

function pad_loop :: "int \<Rightarrow> real \<Rightarrow> int \<Rightarrow> CutPlan list \<Rightarrow> CutPlan list" where
  "pad_loop numExtrusions stockLength currentExtrusionIndex plans =
     (if currentExtrusionIndex < numExtrusions
      then pad_loop numExtrusions stockLength (currentExtrusionIndex + 1)
             (plans @ [\<lparr>cuts = [], waste = stockLength\<rparr>])
      else plans)"
  by pat_completeness auto
termination
  by (relation "measure (\<lambda>(n, s, i, ps). nat (n - i))") auto

text \<open>
  \<^verbatim>\<open>[...convertedCuts].sort((a, b) => b.length - a.length)\<close>: the sort of an array is
  stable, so this is the stable sort in descending order of the length.
\<close>

definition sort_desc :: "Cut list \<Rightarrow> Cut list" where
  "sort_desc cs = sort_key (\<lambda>c. - length_c c) cs"

text \<open>
  The two working lists of \<^verbatim>\<open>calculateOptimalCutPlan\<close>: \<^verbatim>\<open>convertedCuts\<close> holds a
  fresh copy of every cut (the spread \<^verbatim>\<open>{...cut, length: ...}\<close>) whose length is the
  length in millimetres plus the kerf; \<^verbatim>\<open>sortedCuts\<close> is its sorted copy.
\<close>

definition convertedCuts :: "Cut list \<Rightarrow> Unit \<Rightarrow> real \<Rightarrow> Unit \<Rightarrow> Cut list" where
  "convertedCuts cs unit kerfWidth kerfUnit =
     map (\<lambda>c. c\<lparr>length_c := convertToMm unit (length_c c) + getKerfInMm kerfWidth kerfUnit\<rparr>) cs"

definition sortedCuts :: "Cut list \<Rightarrow> Unit \<Rightarrow> real \<Rightarrow> Unit \<Rightarrow> Cut list" where
  "sortedCuts cs unit kerfWidth kerfUnit = sort_desc (convertedCuts cs unit kerfWidth kerfUnit)"

text \<open>
  \<^verbatim>\<open>calculateOptimalCutPlan\<close> of page.tsx. The state of the component that the
  callback closes over is passed as arguments. Only the copies are mutated, so the
  caller's cuts are an input and nothing else.
\<close>

definition calculateOptimalCutPlan ::
  "int \<Rightarrow> real \<Rightarrow> Cut list \<Rightarrow> Unit \<Rightarrow> real \<Rightarrow> Unit \<Rightarrow> CutPlan list" where
  "calculateOptimalCutPlan numExtrusions extrusionLength cs unit kerfWidth kerfUnit =
     (let stockLength = convertToMm unit extrusionLength;
          kerfWidthMm = getKerfInMm kerfWidth kerfUnit;
          remainingCuts = sortedCuts cs unit kerfWidth kerfUnit
      in case bars_loop numExtrusions stockLength kerfWidthMm remainingCuts 0 [] of
           (currentExtrusionIndex, plans) \<Rightarrow>
             map (\<lambda>plan. \<lparr>cuts = map (convertFromMm unit) (cuts plan),
                          waste = convertFromMm unit (waste plan)\<rparr>)
               (pad_loop numExtrusions stockLength currentExtrusionIndex plans))"

section \<open>The kerf-free allocator of aluminum-extrusion-calculator.tsx\<close>

text \<open>
  The component file has its own \<^verbatim>\<open>calculateOptimalCutPlan\<close>, without units and
  without kerf: it pushes \<^verbatim>\<open>cut.length\<close> itself and returns the plans as they are.
  Its loops are the same three; the last one adds the same empty plans, so \<open>pad_loop\<close>
  is used for it too.
\<close>

function place_while_plain :: "Cut \<Rightarrow> real \<Rightarrow> real list \<Rightarrow> Cut \<times> real \<times> real list" where
  "place_while_plain c remainingLength currentCuts =
     (if quantity c > 0 \<and> remainingLength \<ge> length_c c
      then place_while_plain (c\<lparr>quantity := quantity c - 1\<rparr>)
             (remainingLength - length_c c)
             (currentCuts @ [length_c c])
      else (c, remainingLength, currentCuts))"
  by pat_completeness auto
termination
  by (relation "measure (\<lambda>(c, r, cs). nat (quantity c))") auto

fun for_cuts_plain :: "Cut list \<Rightarrow> real \<Rightarrow> real list \<Rightarrow> Cut list \<times> real \<times> real list" where
  "for_cuts_plain [] remainingLength currentCuts = ([], remainingLength, currentCuts)"
| "for_cuts_plain (c # rest) remainingLength currentCuts =
     (case place_while_plain c remainingLength currentCuts of
        (c', remainingLength', currentCuts') \<Rightarrow>
          (case for_cuts_plain rest remainingLength' currentCuts' of
             (rest', remainingLength'', currentCuts'') \<Rightarrow>
               (c' # rest', remainingLength'', currentCuts'')))"

function bars_loop_plain :: "int \<Rightarrow> real \<Rightarrow> Cut list \<Rightarrow> int \<Rightarrow> CutPlan list \<Rightarrow> int \<times> CutPlan list" where
  "bars_loop_plain numExtrusions extrusionLength remainingCuts currentExtrusionIndex plans =
     (if currentExtrusionIndex < numExtrusions \<and> list_ex (\<lambda>c. quantity c > 0) remainingCuts
      then (case for_cuts_plain remainingCuts extrusionLength [] of
              (remainingCuts', remainingLength, currentCuts) \<Rightarrow>
                bars_loop_plain numExtrusions extrusionLength remainingCuts'
                  (currentExtrusionIndex + 1)
                  (plans @ [\<lparr>cuts = currentCuts, waste = remainingLength\<rparr>]))
      else (currentExtrusionIndex, plans))"
  by pat_completeness auto
termination
  by (relation "measure (\<lambda>(n, s, rc, i, ps). nat (n - i))") auto

definition calculateOptimalCutPlan_plain :: "int \<Rightarrow> real \<Rightarrow> Cut list \<Rightarrow> CutPlan list" where
  "calculateOptimalCutPlan_plain numExtrusions extrusionLength cs =
     (let remainingCuts = sort_desc (map (\<lambda>c. c) cs)
      in case bars_loop_plain numExtrusions extrusionLength remainingCuts 0 [] of
           (currentExtrusionIndex, plans) \<Rightarrow>
             pad_loop numExtrusions extrusionLength currentExtrusionIndex plans)"

section \<open>Notions for the statements and the proofs\<close>

text \<open>
  The plans that the first loop adds, without the accumulator: \<open>bars_loop\<close> returns
  the plans it was given followed by these (lemma \<open>bars_loop_eq\<close>).
\<close>

function bars_plans :: "int \<Rightarrow> real \<Rightarrow> real \<Rightarrow> Cut list \<Rightarrow> int \<Rightarrow> CutPlan list" where
  "bars_plans n S k rc i =
     (if i < n \<and> list_ex (\<lambda>c. quantity c > 0) rc
      then (case for_cuts k rc S [] of
              (rc', r, cur) \<Rightarrow> \<lparr>cuts = cur, waste = r\<rparr> # bars_plans n S k rc' (i + 1))
      else [])"
  by pat_completeness auto
termination
  by (relation "measure (\<lambda>(n, S, k, rc, i). nat (n - i))") auto


text \<open>Once a plan has no cuts, none of the plans after it has any.\<close>

fun empties_last :: "CutPlan list \<Rightarrow> bool" where
  "empties_last [] = True"
| "empties_last (p # ps) = ((cuts p = [] \<longrightarrow> (\<forall>q\<in>set ps. cuts q = [])) \<and> empties_last ps)"

text \<open>The conversion of a plan to the display unit, the last step of page.tsx.\<close>

definition to_display :: "Unit \<Rightarrow> CutPlan \<Rightarrow> CutPlan" where
  "to_display unit plan =
     \<lparr>cuts = map (convertFromMm unit) (cuts plan), waste = convertFromMm unit (waste plan)\<rparr>"

text \<open>A list of cuts in descending order of the length.\<close>

definition descending :: "Cut list \<Rightarrow> bool" where
  "descending rc = sorted_wrt (\<lambda>a b. length_c a \<ge> length_c b) rc"

declare place_while.simps [simp del] bars_loop.simps [simp del] pad_loop.simps [simp del]
  bars_plans.simps [simp del] place_while_plain.simps [simp del] bars_loop_plain.simps [simp del]

section \<open>The allocator of page.tsx on a store of objects\<close>

text \<open>
  In the source a cut is an object, and the arrays hold references: the caller's array
  \<^verbatim>\<open>cuts\<close> (the state of the component), the array \<^verbatim>\<open>convertedCuts\<close> of fresh
  objects that the spread \<^verbatim>\<open>{...cut, length: ...}\<close> allocates, and its copies
  \<^verbatim>\<open>sortedCuts\<close> and \<^verbatim>\<open>remainingCuts\<close>, which hold the same references.
  \<^verbatim>\<open>cut.quantity--\<close> writes to the object. Here this is modelled as written: a store maps
  a reference (a natural number) to an object, \<open>fresh\<close> is the next reference that an
  allocation hands out, an array is a list of references, and every function takes the
  store and returns it updated.
\<close>

record heap =
  objs :: "nat \<Rightarrow> Cut"
  fresh :: nat

text \<open>
  \<^verbatim>\<open>cuts.map((cut) => ({...cut, length: convertToMm(cut.length) + kerfWidthMm}))\<close>:
  one fresh object per element, in the order of the array; the result is the array of
  the new references.
\<close>

fun convertedCuts_h :: "Unit \<Rightarrow> real \<Rightarrow> nat list \<Rightarrow> heap \<Rightarrow> nat list \<times> heap" where
  "convertedCuts_h unit kerfWidthMm [] h = ([], h)"
| "convertedCuts_h unit kerfWidthMm (a # rest) h =
     (case convertedCuts_h unit kerfWidthMm rest
             (h\<lparr>objs := (objs h)(fresh h :=
                     (objs h a)\<lparr>length_c := convertToMm unit (length_c (objs h a)) + kerfWidthMm\<rparr>),
                fresh := fresh h + 1\<rparr>) of
        (rest', h') \<Rightarrow> (fresh h # rest', h'))"

text \<open>The inner \<^verbatim>\<open>while\<close> on the object that \<open>a\<close> refers to.\<close>

function place_while_h :: "real \<Rightarrow> nat \<Rightarrow> real \<Rightarrow> real list \<Rightarrow> heap \<Rightarrow> real \<times> real list \<times> heap" where
  "place_while_h kerfWidthMm a remainingLength currentCuts h =
     (if quantity (objs h a) > 0 \<and> remainingLength \<ge> length_c (objs h a)
      then place_while_h kerfWidthMm a
             (remainingLength - length_c (objs h a))
             (currentCuts @ [length_c (objs h a) - kerfWidthMm])
             (h\<lparr>objs := (objs h)(a := (objs h a)\<lparr>quantity := quantity (objs h a) - 1\<rparr>)\<rparr>)
      else (remainingLength, currentCuts, h))"
  by pat_completeness auto
termination
  by (relation "measure (\<lambda>(k, a, r, cs, h). nat (quantity (objs h a)))") simp_all

declare place_while_h.simps [simp del]

fun for_cuts_h :: "real \<Rightarrow> nat list \<Rightarrow> real \<Rightarrow> real list \<Rightarrow> heap \<Rightarrow> real \<times> real list \<times> heap" where
  "for_cuts_h kerfWidthMm [] remainingLength currentCuts h = (remainingLength, currentCuts, h)"
| "for_cuts_h kerfWidthMm (a # rest) remainingLength currentCuts h =
     (case place_while_h kerfWidthMm a remainingLength currentCuts h of
        (remainingLength', currentCuts', h') \<Rightarrow>
          for_cuts_h kerfWidthMm rest remainingLength' currentCuts' h')"

function bars_loop_h ::
  "int \<Rightarrow> real \<Rightarrow> real \<Rightarrow> nat list \<Rightarrow> int \<Rightarrow> CutPlan list \<Rightarrow> heap \<Rightarrow> int \<times> CutPlan list \<times> heap" where
  "bars_loop_h numExtrusions stockLength kerfWidthMm remainingCuts currentExtrusionIndex plans h =
     (if currentExtrusionIndex < numExtrusions
         \<and> list_ex (\<lambda>a. quantity (objs h a) > 0) remainingCuts
      then (case for_cuts_h kerfWidthMm remainingCuts stockLength [] h of
              (remainingLength, currentCuts, h') \<Rightarrow>
                bars_loop_h numExtrusions stockLength kerfWidthMm remainingCuts
                  (currentExtrusionIndex + 1)
                  (plans @ [\<lparr>cuts = currentCuts, waste = remainingLength\<rparr>]) h')
      else (currentExtrusionIndex, plans, h))"
  by pat_completeness auto
termination
  by (relation "measure (\<lambda>(n, s, k, rc, i, ps, h). nat (n - i))") simp_all

text \<open>
  \<^verbatim>\<open>Array.prototype.sort\<close> is code of the engine, not of the repository. It is a
  parameter \<open>srt\<close> of the run, which receives the comparator and the array, and what
  the language standard promises of it is \<open>sort_contract\<close>, for the comparators
  \<^verbatim>\<open>(a, b) => len(b) - len(a)\<close>: the result is a rearrangement of the array, no element
  comes before one that the comparator puts first, and elements that compare equal
  keep their order.
\<close>

definition sort_contract :: "((nat \<Rightarrow> nat \<Rightarrow> real) \<Rightarrow> nat list \<Rightarrow> nat list) \<Rightarrow> bool" where
  "sort_contract srt \<longleftrightarrow>
     (\<forall>len xs.
        mset (srt (\<lambda>a b. len b - len a) xs) = mset xs
        \<and> sorted_wrt (\<lambda>a b. len b - len a \<le> 0) (srt (\<lambda>a b. len b - len a) xs)
        \<and> (\<forall>x. filter (\<lambda>y. len y - len x = 0) (srt (\<lambda>a b. len b - len a) xs)
               = filter (\<lambda>y. len y - len x = 0) xs))"

text \<open>
  The working list of the run: the fresh copies, sorted by the engine with the comparator
  \<^verbatim>\<open>(a, b) => b.length - a.length\<close>, which reads the lengths of the copies from the
  store. It returns the sorted array of references and the store with the copies.
\<close>

definition sortedCuts_h ::
  "((nat \<Rightarrow> nat \<Rightarrow> real) \<Rightarrow> nat list \<Rightarrow> nat list) \<Rightarrow>
   nat list \<Rightarrow> Unit \<Rightarrow> real \<Rightarrow> Unit \<Rightarrow> heap \<Rightarrow> nat list \<times> heap" where
  "sortedCuts_h srt cs unit kerfWidth kerfUnit h =
     (case convertedCuts_h unit (getKerfInMm kerfWidth kerfUnit) cs h of
        (convertedRefs, h1) \<Rightarrow>
          (srt (\<lambda>a b. length_c (objs h1 b) - length_c (objs h1 a)) convertedRefs, h1))"

text \<open>
  \<^verbatim>\<open>calculateOptimalCutPlan\<close> of page.tsx on the store: \<open>cs\<close> is the caller's array of
  references. It returns the plans and the store after the run.
\<close>

definition calculateOptimalCutPlan_h ::
  "((nat \<Rightarrow> nat \<Rightarrow> real) \<Rightarrow> nat list \<Rightarrow> nat list) \<Rightarrow>
   int \<Rightarrow> real \<Rightarrow> nat list \<Rightarrow> Unit \<Rightarrow> real \<Rightarrow> Unit \<Rightarrow> heap \<Rightarrow> CutPlan list \<times> heap" where
  "calculateOptimalCutPlan_h srt numExtrusions extrusionLength cs unit kerfWidth kerfUnit h =
     (let stockLength = convertToMm unit extrusionLength;
          kerfWidthMm = getKerfInMm kerfWidth kerfUnit
      in case sortedCuts_h srt cs unit kerfWidth kerfUnit h of
           (remainingCuts, h1) \<Rightarrow>
             (case bars_loop_h numExtrusions stockLength kerfWidthMm remainingCuts 0 [] h1 of
                (currentExtrusionIndex, plans, h2) \<Rightarrow>
                  (map (\<lambda>plan. \<lparr>cuts = map (convertFromMm unit) (cuts plan),
                                waste = convertFromMm unit (waste plan)\<rparr>)
                     (pad_loop numExtrusions stockLength currentExtrusionIndex plans), h2)))"

text \<open>An insertion sort by a comparator, one sort that meets the contract.\<close>

fun insert_by :: "(nat \<Rightarrow> nat \<Rightarrow> real) \<Rightarrow> nat \<Rightarrow> nat list \<Rightarrow> nat list" where
  "insert_by cmp x [] = [x]"
| "insert_by cmp x (y # ys) = (if cmp x y \<le> 0 then x # y # ys else y # insert_by cmp x ys)"

definition insertion_sort :: "(nat \<Rightarrow> nat \<Rightarrow> real) \<Rightarrow> nat list \<Rightarrow> nat list" where
  "insertion_sort cmp xs = foldr (insert_by cmp) xs []"

declare bars_loop_h.simps [simp del]

section \<open>The allocator of page.tsx in double arithmetic\<close>

text \<open>
  A JavaScript number is an IEEE 754 binary64 value, and every \<^verbatim>\<open>+\<close>, \<^verbatim>\<open>-\<close>, \<^verbatim>\<open>*\<close>
  and \<^verbatim>\<open>/\<close> returns the exact result rounded to the nearest such value, ties to the
  even significand. A finite double is modelled as the real it denotes.
  \<open>round_double x\<close> rounds \<open>x\<close> to a multiple of \<open>2 powi e\<close>, where \<open>e\<close> is the
  exponent of the last place of the significand of 53 bits: \<open>flog2 \<bar>x\<bar> - 52\<close>
  (\<open>flog2\<close> is the floor of the logarithm to base 2, lemma \<open>flog2_bounds\<close>), and
  \<open>-1074\<close> for the subnormal numbers; the result is within half a unit of the last
  place (lemma \<open>round_double_near\<close>). An operation whose rounded result is not below
  \<open>2 ^ 1024\<close> in absolute value gives \<open>None\<close>: the code goes on with
  \<^verbatim>\<open>Infinity\<close> there, and such runs are outside this model, as is the sign of zero.
\<close>

function ilog2 :: "int \<Rightarrow> int" where
  "ilog2 n = (if n \<le> 1 then 0 else 1 + ilog2 (n div 2))"
  by pat_completeness auto
termination
  by (relation "measure nat") auto

declare ilog2.simps [simp del]

definition flog2 :: "real \<Rightarrow> int" where
  "flog2 a = (if 1 \<le> a then ilog2 \<lfloor>a\<rfloor> else - (ilog2 (\<lceil>1 / a\<rceil> - 1) + 1))"

definition round_even :: "real \<Rightarrow> int" where
  "round_even x =
     (let f = \<lfloor>x\<rfloor>; d = x - of_int f
      in if d < 1 / 2 then f else if 1 / 2 < d then f + 1 else if even f then f else f + 1)"

definition ulp_exponent :: "real \<Rightarrow> int" where
  "ulp_exponent x = max (- 1074) (flog2 \<bar>x\<bar> - 52)"

definition round_double :: "real \<Rightarrow> real" where
  "round_double x =
     (if x = 0 then 0
      else of_int (round_even (x / 2 powi ulp_exponent x)) * 2 powi ulp_exponent x)"

definition to_number :: "real \<Rightarrow> real option" where
  "to_number x = (let r = round_double x in if \<bar>r\<bar> < 2 ^ 1024 then Some r else None)"

definition dadd :: "real \<Rightarrow> real \<Rightarrow> real option" where
  "dadd a b = to_number (a + b)"

definition dsub :: "real \<Rightarrow> real \<Rightarrow> real option" where
  "dsub a b = to_number (a - b)"

definition dmul :: "real \<Rightarrow> real \<Rightarrow> real option" where
  "dmul a b = to_number (a * b)"

definition ddiv :: "real \<Rightarrow> real \<Rightarrow> real option" where
  "ddiv a b = (if b = 0 then None else to_number (a / b))"

text \<open>
  The program in this arithmetic. A number literal of the source denotes the double
  nearest to it, so the factors are rounded; the arguments are numbers already. The
  comparator \<^verbatim>\<open>b.length - a.length\<close> has the sign of the exact difference (a
  difference of two doubles rounds to zero only when they are equal), so the sort is
  \<open>sort_desc\<close> again; the second loop does no arithmetic and is \<open>pad_loop\<close>.
\<close>

definition unitConversions_d :: "Unit \<Rightarrow> real" where
  "unitConversions_d unit = round_double (unitConversions unit)"

definition convertToMm_d :: "Unit \<Rightarrow> real \<Rightarrow> real option" where
  "convertToMm_d unit v = dmul v (unitConversions_d unit)"

definition convertFromMm_d :: "Unit \<Rightarrow> real \<Rightarrow> real option" where
  "convertFromMm_d unit v = ddiv v (unitConversions_d unit)"

definition getKerfInMm_d :: "real \<Rightarrow> Unit \<Rightarrow> real option" where
  "getKerfInMm_d kerfWidth kerfUnit = dmul kerfWidth (unitConversions_d kerfUnit)"

fun convertedCuts_d :: "Unit \<Rightarrow> real \<Rightarrow> Cut list \<Rightarrow> Cut list option" where
  "convertedCuts_d unit kerfWidthMm [] = Some []"
| "convertedCuts_d unit kerfWidthMm (c # rest) =
     (case convertToMm_d unit (length_c c) of
        None \<Rightarrow> None
      | Some mm \<Rightarrow>
          (case dadd mm kerfWidthMm of
             None \<Rightarrow> None
           | Some l \<Rightarrow>
               (case convertedCuts_d unit kerfWidthMm rest of
                  None \<Rightarrow> None
                | Some rest' \<Rightarrow> Some (c\<lparr>length_c := l\<rparr> # rest'))))"

function place_while_d :: "real \<Rightarrow> Cut \<Rightarrow> real \<Rightarrow> real list \<Rightarrow> (Cut \<times> real \<times> real list) option" where
  "place_while_d kerfWidthMm c remainingLength currentCuts =
     (if quantity c > 0 \<and> remainingLength \<ge> length_c c
      then (case dsub (length_c c) kerfWidthMm of
              None \<Rightarrow> None
            | Some piece \<Rightarrow>
                (case dsub remainingLength (length_c c) of
                   None \<Rightarrow> None
                 | Some remainingLength' \<Rightarrow>
                     place_while_d kerfWidthMm (c\<lparr>quantity := quantity c - 1\<rparr>)
                       remainingLength' (currentCuts @ [piece])))
      else Some (c, remainingLength, currentCuts))"
  by pat_completeness auto
termination
  by (relation "measure (\<lambda>(k, c, r, cs). nat (quantity c))") auto

declare place_while_d.simps [simp del]

fun for_cuts_d :: "real \<Rightarrow> Cut list \<Rightarrow> real \<Rightarrow> real list \<Rightarrow> (Cut list \<times> real \<times> real list) option" where
  "for_cuts_d kerfWidthMm [] remainingLength currentCuts = Some ([], remainingLength, currentCuts)"
| "for_cuts_d kerfWidthMm (c # rest) remainingLength currentCuts =
     (case place_while_d kerfWidthMm c remainingLength currentCuts of
        None \<Rightarrow> None
      | Some (c', remainingLength', currentCuts') \<Rightarrow>
          (case for_cuts_d kerfWidthMm rest remainingLength' currentCuts' of
             None \<Rightarrow> None
           | Some (rest', remainingLength'', currentCuts'') \<Rightarrow>
               Some (c' # rest', remainingLength'', currentCuts'')))"

function bars_loop_d ::
  "int \<Rightarrow> real \<Rightarrow> real \<Rightarrow> Cut list \<Rightarrow> int \<Rightarrow> CutPlan list \<Rightarrow> (int \<times> CutPlan list) option" where
  "bars_loop_d numExtrusions stockLength kerfWidthMm remainingCuts currentExtrusionIndex plans =
     (if currentExtrusionIndex < numExtrusions \<and> list_ex (\<lambda>c. quantity c > 0) remainingCuts
      then (case for_cuts_d kerfWidthMm remainingCuts stockLength [] of
              None \<Rightarrow> None
            | Some (remainingCuts', remainingLength, currentCuts) \<Rightarrow>
                bars_loop_d numExtrusions stockLength kerfWidthMm remainingCuts'
                  (currentExtrusionIndex + 1)
                  (plans @ [\<lparr>cuts = currentCuts, waste = remainingLength\<rparr>]))
      else Some (currentExtrusionIndex, plans))"
  by pat_completeness auto
termination
  by (relation "measure (\<lambda>(n, s, k, rc, i, ps). nat (n - i))") auto

declare bars_loop_d.simps [simp del]

definition to_display_d :: "Unit \<Rightarrow> CutPlan \<Rightarrow> CutPlan option" where
  "to_display_d unit plan =
     (case those (map (convertFromMm_d unit) (cuts plan)) of
        None \<Rightarrow> None
      | Some cs \<Rightarrow>
          (case convertFromMm_d unit (waste plan) of
             None \<Rightarrow> None
           | Some w \<Rightarrow> Some \<lparr>cuts = cs, waste = w\<rparr>))"

definition calculateOptimalCutPlan_d ::
  "int \<Rightarrow> real \<Rightarrow> Cut list \<Rightarrow> Unit \<Rightarrow> real \<Rightarrow> Unit \<Rightarrow> CutPlan list option" where
  "calculateOptimalCutPlan_d numExtrusions extrusionLength cs unit kerfWidth kerfUnit =
     (case convertToMm_d unit extrusionLength of
        None \<Rightarrow> None
      | Some stockLength \<Rightarrow>
          (case getKerfInMm_d kerfWidth kerfUnit of
             None \<Rightarrow> None
           | Some kerfWidthMm \<Rightarrow>
               (case convertedCuts_d unit kerfWidthMm cs of
                  None \<Rightarrow> None
                | Some converted \<Rightarrow>
                    (case bars_loop_d numExtrusions stockLength kerfWidthMm (sort_desc converted) 0 [] of
                       None \<Rightarrow> None
                     | Some (currentExtrusionIndex, plans) \<Rightarrow>
                         those (map (to_display_d unit)
                           (pad_loop numExtrusions stockLength currentExtrusionIndex plans))))))"

section \<open>Unit round trip\<close>

lemma unitConversions_pos: "0 < unitConversions u"
  by (cases u) simp_all

text \<open>
  C5. For every unit and every value (finite and non-negative ones among them),
  converting to millimetres and back gives the value again, over exact arithmetic:
  the one multiplies by the unit's factor, the other divides by it.
\<close>

theorem C5_unit_round_trip:
  "convertFromMm u (convertToMm u x) = x
   \<and> convertToMm u x = x * unitConversions u
   \<and> convertFromMm u y = y / unitConversions u"
  using unitConversions_pos [of u] by (simp add: convertFromMm_def convertToMm_def)

section \<open>The inner loop and the loop over the cuts of one bar\<close>

lemma place_while_shape:
  "\<exists>m. place_while k c r cur =
         (c\<lparr>quantity := quantity c - int m\<rparr>, r - real m * length_c c,
          cur @ replicate m (length_c c - k))
       \<and> (m = 0 \<or> (int m \<le> quantity c \<and> length_c c \<le> r \<and> 0 \<le> r - real m * length_c c))
       \<and> (0 < quantity c - int m \<longrightarrow> r - real m * length_c c < length_c c)"
proof (induction k c r cur rule: place_while.induct)
  case (1 k c r cur)
  show ?case
  proof (cases "quantity c > 0 \<and> r \<ge> length_c c")
    case False
    then have "place_while k c r cur = (c, r, cur)"
      by (simp add: place_while.simps)
    with False show ?thesis
      by (intro exI [of _ 0]) auto
  next
    case True
    from "1.IH" [OF True] obtain m where
      eq: "place_while k (c\<lparr>quantity := quantity c - 1\<rparr>) (r - length_c c) (cur @ [length_c c - k]) =
             (c\<lparr>quantity := quantity c - 1 - int m\<rparr>, r - length_c c - real m * length_c c,
              (cur @ [length_c c - k]) @ replicate m (length_c c - k))"
      and b: "m = 0 \<or> (int m \<le> quantity c - 1 \<and> length_c c \<le> r - length_c c
                \<and> 0 \<le> r - length_c c - real m * length_c c)"
      and e: "0 < quantity c - 1 - int m \<longrightarrow> r - length_c c - real m * length_c c < length_c c"
      by auto
    have step: "place_while k c r cur =
        place_while k (c\<lparr>quantity := quantity c - 1\<rparr>) (r - length_c c) (cur @ [length_c c - k])"
      using True by (subst place_while.simps) simp
    have r: "r - length_c c - real m * length_c c = r - real (Suc m) * length_c c"
      by (simp add: algebra_simps)
    have q: "quantity c - 1 - int m = quantity c - int (Suc m)"
      by simp
    have l: "(cur @ [length_c c - k]) @ replicate m (length_c c - k) = cur @ replicate (Suc m) (length_c c - k)"
      by simp
    show ?thesis
    proof (intro exI [of _ "Suc m"] conjI)
      show "place_while k c r cur =
        (c\<lparr>quantity := quantity c - int (Suc m)\<rparr>, r - real (Suc m) * length_c c,
         cur @ replicate (Suc m) (length_c c - k))"
        unfolding step eq r q l ..
      show "Suc m = 0 \<or> (int (Suc m) \<le> quantity c \<and> length_c c \<le> r \<and> 0 \<le> r - real (Suc m) * length_c c)"
        using b True unfolding r [symmetric] by auto
      show "0 < quantity c - int (Suc m) \<longrightarrow> r - real (Suc m) * length_c c < length_c c"
        using e unfolding r [symmetric] q [symmetric] .
    qed
  qed
qed

lemma for_cuts_conserve:
  "for_cuts k rc r cur = (rc', r', cur') \<Longrightarrow>
   sum_list cur' + k * real (length cur') + r' = sum_list cur + k * real (length cur) + r"
proof (induction rc arbitrary: r cur rc' r' cur')
  case Nil
  then show ?case by simp
next
  case (Cons c rest)
  obtain m where pw: "place_while k c r cur =
      (c\<lparr>quantity := quantity c - int m\<rparr>, r - real m * length_c c,
       cur @ replicate m (length_c c - k))"
    using place_while_shape [of k c r cur] by blast
  obtain rest' r2 cur2 where fc:
    "for_cuts k rest (r - real m * length_c c) (cur @ replicate m (length_c c - k)) = (rest', r2, cur2)"
    by (cases "for_cuts k rest (r - real m * length_c c) (cur @ replicate m (length_c c - k))") auto
  from Cons.prems pw fc have res: "r' = r2" "cur' = cur2" by simp_all
  have "sum_list cur2 + k * real (length cur2) + r2 =
        sum_list (cur @ replicate m (length_c c - k))
          + k * real (length (cur @ replicate m (length_c c - k))) + (r - real m * length_c c)"
    by (rule Cons.IH [OF fc])
  also have "\<dots> = sum_list cur + k * real (length cur) + r"
    by (simp add: sum_list_replicate algebra_simps)
  finally show ?case unfolding res .
qed

lemma for_cuts_nonneg:
  "for_cuts k rc r cur = (rc', r', cur') \<Longrightarrow> 0 \<le> r \<Longrightarrow> 0 \<le> r'"
proof (induction rc arbitrary: r cur rc' r' cur')
  case Nil
  then show ?case by simp
next
  case (Cons c rest)
  obtain m where pw: "place_while k c r cur =
      (c\<lparr>quantity := quantity c - int m\<rparr>, r - real m * length_c c,
       cur @ replicate m (length_c c - k))"
    and b: "m = 0 \<or> 0 \<le> r - real m * length_c c"
    using place_while_shape [of k c r cur] by blast
  obtain rest' r2 cur2 where fc:
    "for_cuts k rest (r - real m * length_c c) (cur @ replicate m (length_c c - k)) = (rest', r2, cur2)"
    by (cases "for_cuts k rest (r - real m * length_c c) (cur @ replicate m (length_c c - k))") auto
  from Cons.prems(1) pw fc have res: "r' = r2" by simp
  from b Cons.prems(2) have "0 \<le> r - real m * length_c c" by auto
  from Cons.IH [OF fc this] show ?case unfolding res .
qed

lemma for_cuts_lengths:
  "for_cuts k rc r cur = (rc', r', cur') \<Longrightarrow> map length_c rc' = map length_c rc"
proof (induction rc arbitrary: r cur rc' r' cur')
  case Nil
  then show ?case by simp
next
  case (Cons c rest)
  obtain m where pw: "place_while k c r cur =
      (c\<lparr>quantity := quantity c - int m\<rparr>, r - real m * length_c c,
       cur @ replicate m (length_c c - k))"
    using place_while_shape [of k c r cur] by blast
  obtain rest' r2 cur2 where fc:
    "for_cuts k rest (r - real m * length_c c) (cur @ replicate m (length_c c - k)) = (rest', r2, cur2)"
    by (cases "for_cuts k rest (r - real m * length_c c) (cur @ replicate m (length_c c - k))") auto
  from Cons.prems pw fc have res: "rc' = c\<lparr>quantity := quantity c - int m\<rparr> # rest'" by simp
  from Cons.IH [OF fc] show ?case unfolding res by simp
qed

lemma for_cuts_nothing:
  "for_cuts k rc r cur = (rc', r', cur') \<Longrightarrow>
   \<exists>new. cur' = cur @ new \<and> (new = [] \<longrightarrow> rc' = rc \<and> r' = r)"
proof (induction rc arbitrary: r cur rc' r' cur')
  case Nil
  then show ?case by simp
next
  case (Cons c rest)
  obtain m where pw: "place_while k c r cur =
      (c\<lparr>quantity := quantity c - int m\<rparr>, r - real m * length_c c,
       cur @ replicate m (length_c c - k))"
    using place_while_shape [of k c r cur] by blast
  obtain rest' r2 cur2 where fc:
    "for_cuts k rest (r - real m * length_c c) (cur @ replicate m (length_c c - k)) = (rest', r2, cur2)"
    by (cases "for_cuts k rest (r - real m * length_c c) (cur @ replicate m (length_c c - k))") auto
  from Cons.prems pw fc have res: "rc' = c\<lparr>quantity := quantity c - int m\<rparr> # rest'" "r' = r2" "cur' = cur2"
    by simp_all
  from Cons.IH [OF fc] obtain new where
    n: "cur2 = (cur @ replicate m (length_c c - k)) @ new"
    and e: "new = [] \<longrightarrow> rest' = rest \<and> r2 = r - real m * length_c c"
    by blast
  show ?case
  proof (intro exI [of _ "replicate m (length_c c - k) @ new"] conjI impI)
    show "cur' = cur @ replicate m (length_c c - k) @ new"
      using n res by simp
    assume "replicate m (length_c c - k) @ new = []"
    then have "m = 0" "new = []" by simp_all
    with e res show "rc' = c # rest" "r' = r" by simp_all
  qed
qed




section \<open>The loop over the bars\<close>

lemma bars_plans_stop:
  "\<not> (i < n \<and> list_ex (\<lambda>c. quantity c > 0) rc) \<Longrightarrow> bars_plans n S k rc i = []"
  by (subst bars_plans.simps) auto

lemma bars_plans_step:
  "i < n \<and> list_ex (\<lambda>c. quantity c > 0) rc \<Longrightarrow> for_cuts k rc S [] = (rc', r, cur) \<Longrightarrow>
   bars_plans n S k rc i = \<lparr>cuts = cur, waste = r\<rparr> # bars_plans n S k rc' (i + 1)"
  by (subst bars_plans.simps) simp

lemma bars_loop_stop:
  "\<not> (i < n \<and> list_ex (\<lambda>c. quantity c > 0) rc) \<Longrightarrow> bars_loop n S k rc i ps = (i, ps)"
  by (subst bars_loop.simps) auto

lemma bars_loop_step:
  "i < n \<and> list_ex (\<lambda>c. quantity c > 0) rc \<Longrightarrow> for_cuts k rc S [] = (rc', r, cur) \<Longrightarrow>
   bars_loop n S k rc i ps = bars_loop n S k rc' (i + 1) (ps @ [\<lparr>cuts = cur, waste = r\<rparr>])"
  by (subst bars_loop.simps) simp

lemma bars_loop_eq:
  "bars_loop n S k rc i ps =
     (i + int (length (bars_plans n S k rc i)), ps @ bars_plans n S k rc i)"
proof (induction n S k rc i ps rule: bars_loop.induct)
  case (1 n S k rc i ps)
  show ?case
  proof (cases "i < n \<and> list_ex (\<lambda>c. quantity c > 0) rc")
    case False
    show ?thesis
      by (simp add: bars_loop_stop [OF False] bars_plans_stop [OF False])
  next
    case True
    obtain rc' r cur where fc: "for_cuts k rc S [] = (rc', r, cur)"
      by (cases "for_cuts k rc S []") auto
    have "bars_loop n S k rc i ps =
          bars_loop n S k rc' (i + 1) (ps @ [\<lparr>cuts = cur, waste = r\<rparr>])"
      by (rule bars_loop_step [OF True fc])
    also have "\<dots> = (i + 1 + int (length (bars_plans n S k rc' (i + 1))),
                     (ps @ [\<lparr>cuts = cur, waste = r\<rparr>]) @ bars_plans n S k rc' (i + 1))"
      using "1.IH" [OF True fc [symmetric] refl] .
    also have "\<dots> = (i + int (length (bars_plans n S k rc i)), ps @ bars_plans n S k rc i)"
      by (simp add: bars_plans_step [OF True fc])
    finally show ?thesis .
  qed
qed

lemma bars_plans_length: "length (bars_plans n S k rc i) \<le> nat (n - i)"
proof (induction n S k rc i rule: bars_plans.induct)
  case (1 n S k rc i)
  show ?case
  proof (cases "i < n \<and> list_ex (\<lambda>c. quantity c > 0) rc")
    case False
    show ?thesis
      by (simp add: bars_plans_stop [OF False])
  next
    case True
    obtain rc' r cur where fc: "for_cuts k rc S [] = (rc', r, cur)"
      by (cases "for_cuts k rc S []") auto
    from "1.IH" [OF True fc [symmetric] refl]
    have "length (bars_plans n S k rc' (i + 1)) \<le> nat (n - (i + 1))" .
    moreover from True have "i < n" ..
    then have "nat (n - i) = Suc (nat (n - (i + 1)))" by simp
    ultimately show ?thesis
      by (simp add: bars_plans_step [OF True fc])
  qed
qed

lemma pad_loop_eq:
  "pad_loop n S i ps = ps @ replicate (nat (n - i)) \<lparr>cuts = [], waste = S\<rparr>"
proof (induction n S i ps rule: pad_loop.induct)
  case (1 n S i ps)
  show ?case
  proof (cases "i < n")
    case False
    then show ?thesis by (simp add: pad_loop.simps [of n S i ps])
  next
    case True
    then have "nat (n - i) = Suc (nat (n - (i + 1)))" by simp
    with "1.IH" [OF True] True show ?thesis
      by (simp add: pad_loop.simps [of n S i ps] replicate_app_Cons_same)
  qed
qed

lemma bars_plans_conserve:
  "p \<in> set (bars_plans n S k rc i) \<Longrightarrow>
   sum_list (cuts p) + k * real (length (cuts p)) + waste p = S"
proof (induction n S k rc i rule: bars_plans.induct)
  case (1 n S k rc i)
  show ?case
  proof (cases "i < n \<and> list_ex (\<lambda>c. quantity c > 0) rc")
    case False
    with "1.prems" show ?thesis
      by (simp add: bars_plans_stop [OF False])
  next
    case True
    obtain rc' r cur where fc: "for_cuts k rc S [] = (rc', r, cur)"
      by (cases "for_cuts k rc S []") auto
    from "1.prems" have "p = \<lparr>cuts = cur, waste = r\<rparr> \<or> p \<in> set (bars_plans n S k rc' (i + 1))"
      by (simp add: bars_plans_step [OF True fc])
    then show ?thesis
    proof
      assume "p = \<lparr>cuts = cur, waste = r\<rparr>"
      with for_cuts_conserve [OF fc] show ?thesis by simp
    next
      assume "p \<in> set (bars_plans n S k rc' (i + 1))"
      then show ?thesis by (rule "1.IH" [OF True fc [symmetric] refl])
    qed
  qed
qed

lemma bars_plans_waste_nonneg:
  "p \<in> set (bars_plans n S k rc i) \<Longrightarrow> 0 \<le> S \<Longrightarrow> 0 \<le> waste p"
proof (induction n S k rc i rule: bars_plans.induct)
  case (1 n S k rc i)
  show ?case
  proof (cases "i < n \<and> list_ex (\<lambda>c. quantity c > 0) rc")
    case False
    with "1.prems" show ?thesis
      by (simp add: bars_plans_stop [OF False])
  next
    case True
    obtain rc' r cur where fc: "for_cuts k rc S [] = (rc', r, cur)"
      by (cases "for_cuts k rc S []") auto
    from "1.prems" have "p = \<lparr>cuts = cur, waste = r\<rparr> \<or> p \<in> set (bars_plans n S k rc' (i + 1))"
      by (simp add: bars_plans_step [OF True fc])
    then show ?thesis
    proof
      assume "p = \<lparr>cuts = cur, waste = r\<rparr>"
      with for_cuts_nonneg [OF fc "1.prems"(2)] show ?thesis by simp
    next
      assume "p \<in> set (bars_plans n S k rc' (i + 1))"
      then show ?thesis using "1.prems"(2) by (rule "1.IH" [OF True fc [symmetric] refl])
    qed
  qed
qed



lemma bars_plans_all_empty:
  "for_cuts k rc S [] = (rc, S, []) \<Longrightarrow> p \<in> set (bars_plans n S k rc i) \<Longrightarrow> cuts p = []"
proof (induction n S k rc i rule: bars_plans.induct)
  case (1 n S k rc i)
  show ?case
  proof (cases "i < n \<and> list_ex (\<lambda>c. quantity c > 0) rc")
    case False
    with "1.prems" show ?thesis
      by (simp add: bars_plans_stop [OF False])
  next
    case True
    note fc = "1.prems"(1)
    from "1.prems"(2) have "p = \<lparr>cuts = [], waste = S\<rparr> \<or> p \<in> set (bars_plans n S k rc (i + 1))"
      by (simp add: bars_plans_step [OF True fc])
    then show ?thesis
    proof
      assume "p = \<lparr>cuts = [], waste = S\<rparr>"
      then show ?thesis by simp
    next
      assume "p \<in> set (bars_plans n S k rc (i + 1))"
      with fc show ?thesis by (rule "1.IH" [OF True fc [symmetric] refl])
    qed
  qed
qed

lemma bars_plans_empties_last: "empties_last (bars_plans n S k rc i)"
proof (induction n S k rc i rule: bars_plans.induct)
  case (1 n S k rc i)
  show ?case
  proof (cases "i < n \<and> list_ex (\<lambda>c. quantity c > 0) rc")
    case False
    show ?thesis
      by (simp add: bars_plans_stop [OF False])
  next
    case True
    obtain rc' r cur where fc: "for_cuts k rc S [] = (rc', r, cur)"
      by (cases "for_cuts k rc S []") auto
    have rest: "empties_last (bars_plans n S k rc' (i + 1))"
      by (rule "1.IH" [OF True fc [symmetric] refl])
    have "\<forall>q\<in>set (bars_plans n S k rc' (i + 1)). cuts q = []" if "cur = []"
    proof -
      from for_cuts_nothing [OF fc] that have "rc' = rc" "r = S" by auto
      with fc that have "for_cuts k rc' S [] = (rc', S, [])" by simp
      then show ?thesis by (blast intro: bars_plans_all_empty)
    qed
    with rest show ?thesis
      by (simp add: bars_plans_step [OF True fc])
  qed
qed

lemma empties_last_append:
  "empties_last xs \<Longrightarrow> \<forall>q\<in>set ys. cuts q = [] \<Longrightarrow> empties_last (xs @ ys)"
proof (induction xs)
  case Nil
  then show ?case by (induction ys) simp_all
next
  case (Cons x xs)
  then show ?case by auto
qed

lemma empties_last_map:
  "empties_last xs \<Longrightarrow> \<forall>p. cuts (g p) = [] \<longleftrightarrow> cuts p = [] \<Longrightarrow> empties_last (map g xs)"
  by (induction xs) auto

lemma empties_last_nth:
  "empties_last ps \<Longrightarrow> i < j \<Longrightarrow> j < length ps \<Longrightarrow> cuts (ps ! i) = [] \<Longrightarrow> cuts (ps ! j) = []"
proof (induction ps arbitrary: i j)
  case Nil
  then show ?case by simp
next
  case (Cons p ps)
  from Cons.prems(2) obtain j' where j: "j = Suc j'" by (cases j) auto
  show ?case
  proof (cases i)
    case 0
    with Cons.prems j show ?thesis by simp
  next
    case (Suc i')
    with Cons.prems j Cons.IH [of i' j'] show ?thesis by simp
  qed
qed

lemma calc_eq:
  "calculateOptimalCutPlan n L cs u kw ku =
     map (to_display u)
       (bars_plans n (convertToMm u L) (getKerfInMm kw ku) (sortedCuts cs u kw ku) 0)
     @ replicate
         (nat (n - int (length (bars_plans n (convertToMm u L) (getKerfInMm kw ku)
                                  (sortedCuts cs u kw ku) 0))))
         \<lparr>cuts = [], waste = L\<rparr>"
proof -
  have "convertFromMm u (convertToMm u L) = L"
    using unitConversions_pos [of u] by (simp add: convertFromMm_def convertToMm_def)
  then show ?thesis
    by (simp add: calculateOptimalCutPlan_def Let_def bars_loop_eq pad_loop_eq to_display_def)
qed

lemma descending_sort_desc: "descending (sort_desc cs)"
proof -
  have "sorted (map (\<lambda>c. - length_c c) (sort_key (\<lambda>c. - length_c c) cs))"
    by (rule sorted_sort_key)
  then show ?thesis
    by (simp add: descending_def sort_desc_def sorted_map)
qed

lemma for_cuts_descending:
  "for_cuts k rc r cur = (rc', r', cur') \<Longrightarrow> descending rc \<Longrightarrow> descending rc'"
proof -
  assume fc: "for_cuts k rc r cur = (rc', r', cur')" and d: "descending rc"
  have "descending xs \<longleftrightarrow> sorted_wrt (\<ge>) (map length_c xs)" for xs
    by (simp add: descending_def sorted_wrt_map)
  with for_cuts_lengths [OF fc] d show ?thesis by simp
qed

lemma for_cuts_fit:
  "for_cuts k rc r cur = (rc', r', cur') \<Longrightarrow> descending rc \<Longrightarrow>
   r \<le> S \<or> (\<forall>c\<in>set rc. length_c c \<le> S) \<Longrightarrow>
   \<forall>x\<in>set cur. x + k \<le> S \<Longrightarrow> \<forall>x\<in>set cur'. x + k \<le> S"
proof (induction rc arbitrary: r cur rc' r' cur')
  case Nil
  then show ?case by simp
next
  case (Cons c rest)
  obtain m where pw: "place_while k c r cur =
      (c\<lparr>quantity := quantity c - int m\<rparr>, r - real m * length_c c,
       cur @ replicate m (length_c c - k))"
    and b: "m = 0 \<or> length_c c \<le> r"
    using place_while_shape [of k c r cur] by blast
  obtain rest' r2 cur2 where fc:
    "for_cuts k rest (r - real m * length_c c) (cur @ replicate m (length_c c - k)) = (rest', r2, cur2)"
    by (cases "for_cuts k rest (r - real m * length_c c) (cur @ replicate m (length_c c - k))") auto
  from Cons.prems(1) pw fc have res: "cur' = cur2" by simp
  from Cons.prems(2) have d: "descending rest" and le: "\<forall>c'\<in>set rest. length_c c' \<le> length_c c"
    by (simp_all add: descending_def)
  show ?case
  proof (cases "m = 0")
    case True
    from Cons.prems(3) have "r - real m * length_c c \<le> S \<or> (\<forall>c\<in>set rest. length_c c \<le> S)"
      using True by auto
    moreover from Cons.prems(4) have "\<forall>x\<in>set (cur @ replicate m (length_c c - k)). x + k \<le> S"
      using True by simp
    ultimately show ?thesis
      unfolding res by (rule Cons.IH [OF fc d])
  next
    case False
    with b have "length_c c \<le> r" by simp
    with Cons.prems(3) have fit: "length_c c \<le> S" by auto
    with le have "r - real m * length_c c \<le> S \<or> (\<forall>c\<in>set rest. length_c c \<le> S)"
      by fastforce
    moreover from Cons.prems(4) fit have "\<forall>x\<in>set (cur @ replicate m (length_c c - k)). x + k \<le> S"
      by auto
    ultimately show ?thesis
      unfolding res by (rule Cons.IH [OF fc d])
  qed
qed

lemma bars_plans_fit:
  "descending rc \<Longrightarrow> p \<in> set (bars_plans n S k rc i) \<Longrightarrow> x \<in> set (cuts p) \<Longrightarrow> x + k \<le> S"
proof (induction n S k rc i rule: bars_plans.induct)
  case (1 n S k rc i)
  show ?case
  proof (cases "i < n \<and> list_ex (\<lambda>c. quantity c > 0) rc")
    case False
    with "1.prems" show ?thesis
      by (simp add: bars_plans_stop [OF False])
  next
    case True
    obtain rc' r cur where fc: "for_cuts k rc S [] = (rc', r, cur)"
      by (cases "for_cuts k rc S []") auto
    from "1.prems"(2) have "p = \<lparr>cuts = cur, waste = r\<rparr> \<or> p \<in> set (bars_plans n S k rc' (i + 1))"
      by (simp add: bars_plans_step [OF True fc])
    then show ?thesis
    proof
      assume "p = \<lparr>cuts = cur, waste = r\<rparr>"
      with for_cuts_fit [OF fc "1.prems"(1), of S] "1.prems"(3) show ?thesis by simp
    next
      assume "p \<in> set (bars_plans n S k rc' (i + 1))"
      with for_cuts_descending [OF fc "1.prems"(1)] show ?thesis
        using "1.prems"(3) by (rule "1.IH" [OF True fc [symmetric] refl])
    qed
  qed
qed

lemma place_while_plain_eq: "place_while 0 c r cur = place_while_plain c r cur"
proof (induction c r cur rule: place_while_plain.induct)
  case (1 c r cur)
  show ?case
  proof (cases "quantity c > 0 \<and> r \<ge> length_c c")
    case True
    with "1.IH" [OF True] show ?thesis
      by (subst place_while.simps, subst place_while_plain.simps) simp
  next
    case False
    then show ?thesis
      by (subst place_while.simps, subst place_while_plain.simps) auto
  qed
qed

lemma for_cuts_plain_eq: "for_cuts 0 rc r cur = for_cuts_plain rc r cur"
  by (induction rc arbitrary: r cur) (simp_all add: place_while_plain_eq)

lemma bars_loop_plain_eq: "bars_loop n S 0 rc i ps = bars_loop_plain n S rc i ps"
proof (induction n S rc i ps rule: bars_loop_plain.induct)
  case (1 n S rc i ps)
  show ?case
  proof (cases "i < n \<and> list_ex (\<lambda>c. quantity c > 0) rc")
    case True
    obtain rc' r cur where fc: "for_cuts_plain rc S [] = (rc', r, cur)"
      by (cases "for_cuts_plain rc S []") auto
    from "1.IH" [OF True fc [symmetric] refl] True fc show ?thesis
      by (subst bars_loop.simps, subst bars_loop_plain.simps) (simp add: for_cuts_plain_eq)
  next
    case False
    then show ?thesis
      by (subst bars_loop.simps, subst bars_loop_plain.simps) auto
  qed
qed

section \<open>Runs on concrete inputs\<close>

lemmas run_simps = calculateOptimalCutPlan_def convertedCuts_def sortedCuts_def sort_desc_def
  convertToMm_def convertFromMm_def getKerfInMm_def
  place_while.simps bars_loop.simps pad_loop.simps

lemma run_stock_2000:
  "calculateOptimalCutPlan 10 2000 [\<lparr>length_c = 1500, quantity = 6\<rparr>] Mm 3.2 Mm =
     [\<lparr>cuts = [1500], waste = 496.8\<rparr>, \<lparr>cuts = [1500], waste = 496.8\<rparr>,
      \<lparr>cuts = [1500], waste = 496.8\<rparr>, \<lparr>cuts = [1500], waste = 496.8\<rparr>,
      \<lparr>cuts = [1500], waste = 496.8\<rparr>, \<lparr>cuts = [1500], waste = 496.8\<rparr>,
      \<lparr>cuts = [], waste = 2000\<rparr>, \<lparr>cuts = [], waste = 2000\<rparr>,
      \<lparr>cuts = [], waste = 2000\<rparr>, \<lparr>cuts = [], waste = 2000\<rparr>]"
  by (simp add: run_simps)

lemma run_stock_1000:
  "calculateOptimalCutPlan 1 1000 [\<lparr>length_c = 1200, quantity = 1\<rparr>] Mm 0 Mm =
     [\<lparr>cuts = [], waste = 1000\<rparr>]"
  by (simp add: run_simps)

lemma run_three_requests:
  "calculateOptimalCutPlan 3 100
     [\<lparr>length_c = 30, quantity = 2\<rparr>, \<lparr>length_c = 50, quantity = 3\<rparr>, \<lparr>length_c = 30, quantity = 1\<rparr>]
     Cm 1 Mm =
     [\<lparr>cuts = [50, 30], waste = 19.8\<rparr>, \<lparr>cuts = [50, 30], waste = 19.8\<rparr>,
      \<lparr>cuts = [50, 30], waste = 19.8\<rparr>]"
  by (simp add: run_simps)

lemma run_too_long:
  "calculateOptimalCutPlan 2 1000
     [\<lparr>length_c = 400, quantity = 3\<rparr>, \<lparr>length_c = 1200, quantity = 1\<rparr>] Mm 0 Mm =
     [\<lparr>cuts = [400, 400], waste = 200\<rparr>, \<lparr>cuts = [400], waste = 600\<rparr>]"
  by (simp add: run_simps)

section \<open>The plans of a run\<close>

lemma plan_cases:
  assumes "p \<in> set (calculateOptimalCutPlan n L cs u kw ku)"
  obtains q where "q \<in> set (bars_plans n (convertToMm u L) (getKerfInMm kw ku) (sortedCuts cs u kw ku) 0)"
      and "p = to_display u q"
    | "p = \<lparr>cuts = [], waste = L\<rparr>"
  using assms unfolding calc_eq by auto

lemma to_mm_sum_list: "convertToMm u (sum_list (map (convertFromMm u) xs)) = sum_list xs"
  using unitConversions_pos [of u]
  by (induction xs) (simp_all add: convertToMm_def convertFromMm_def algebra_simps add_divide_distrib)

lemma to_mm_from_mm: "convertToMm u (convertFromMm u x) = x"
  using unitConversions_pos [of u] by (simp add: convertToMm_def convertFromMm_def)

lemma from_mm_to_mm: "convertFromMm u (convertToMm u x) = x"
  using unitConversions_pos [of u] by (simp add: convertToMm_def convertFromMm_def)

text \<open>
  C1. Conservation. For every plan that \<open>calculateOptimalCutPlan\<close> returns, the sum of
  the placed cut lengths, plus the kerf width times the number of placed cuts, plus the
  waste, is the stock length, exactly, over exact arithmetic in millimetres; this holds
  for every display unit and every input. When the lengths and the kerf are given in
  millimetres, this reads \<open>sum(cuts) + kerf * |cuts| + waste = stockLength\<close>.
\<close>
theorem C1_conservation:
  "p \<in> set (calculateOptimalCutPlan n L cs u kw ku) \<Longrightarrow>
   convertToMm u (sum_list (cuts p)) + getKerfInMm kw ku * real (length (cuts p))
     + convertToMm u (waste p) = convertToMm u L
   \<and> (u = Mm \<and> ku = Mm \<longrightarrow> sum_list (cuts p) + kw * real (length (cuts p)) + waste p = L)"
proof -
  assume p: "p \<in> set (calculateOptimalCutPlan n L cs u kw ku)"
  have mm: "convertToMm u (sum_list (cuts p)) + getKerfInMm kw ku * real (length (cuts p))
     + convertToMm u (waste p) = convertToMm u L"
    using p
  proof (cases rule: plan_cases)
    case (1 q)
    from bars_plans_conserve [OF 1(1)] show ?thesis
      unfolding 1(2) by (simp add: to_display_def to_mm_sum_list to_mm_from_mm)
  next
    case 2
    then show ?thesis by (simp add: convertToMm_def)
  qed
  then show ?thesis
    by (auto simp: convertToMm_def getKerfInMm_def)
qed

theorem C1_conservation_witness:
  "\<lparr>cuts = [50, 30], waste = 19.8\<rparr> \<in> set (calculateOptimalCutPlan 3 100
     [\<lparr>length_c = 30, quantity = 2\<rparr>, \<lparr>length_c = 50, quantity = 3\<rparr>, \<lparr>length_c = 30, quantity = 1\<rparr>]
     Cm 1 Mm)
   \<and> convertToMm Cm (50 + 30) + getKerfInMm 1 Mm * 2 + convertToMm Cm 19.8 = convertToMm Cm 100"
proof -
  have h: "\<lparr>cuts = [50, 30], waste = 19.8\<rparr> \<in> set (calculateOptimalCutPlan 3 100
     [\<lparr>length_c = 30, quantity = 2\<rparr>, \<lparr>length_c = 50, quantity = 3\<rparr>, \<lparr>length_c = 30, quantity = 1\<rparr>]
     Cm 1 Mm)"
    by (simp add: run_three_requests)
  show ?thesis
    using h C1_conservation [OF h] by simp
qed

text \<open>
  C2. Bar count. For every input with \<open>numExtrusions \<ge> 1\<close> the returned sequence
  has exactly \<open>numExtrusions\<close> plans, whatever the demand. Every plan without cuts has
  the whole stock length as its waste, and when no request has a positive quantity
  every plan is such an empty plan.
\<close>
theorem C2_bar_count:
  "1 \<le> n \<Longrightarrow>
   int (length (calculateOptimalCutPlan n L cs u kw ku)) = n
   \<and> (\<forall>p\<in>set (calculateOptimalCutPlan n L cs u kw ku). cuts p = [] \<longrightarrow> waste p = L)
   \<and> (\<not> list_ex (\<lambda>c. quantity c > 0) cs \<longrightarrow>
        calculateOptimalCutPlan n L cs u kw ku = replicate (nat n) \<lparr>cuts = [], waste = L\<rparr>)"
proof (intro conjI ballI impI)
  assume n: "1 \<le> n"
  let ?bars = "bars_plans n (convertToMm u L) (getKerfInMm kw ku) (sortedCuts cs u kw ku) 0"
  have "length ?bars \<le> nat (n - 0)" by (rule bars_plans_length)
  with n show "int (length (calculateOptimalCutPlan n L cs u kw ku)) = n"
    unfolding calc_eq by simp
next
  fix p
  assume p: "p \<in> set (calculateOptimalCutPlan n L cs u kw ku)" and e: "cuts p = []"
  from p show "waste p = L"
  proof (cases rule: plan_cases)
    case (1 q)
    from e 1(2) have "cuts q = []" by (simp add: to_display_def)
    with bars_plans_conserve [OF 1(1)] have "waste q = convertToMm u L" by simp
    with 1(2) show ?thesis by (simp add: to_display_def from_mm_to_mm)
  next
    case 2
    then show ?thesis by simp
  qed
next
  assume "\<not> list_ex (\<lambda>c. quantity c > 0) cs"
  then have "\<not> list_ex (\<lambda>c. quantity c > 0) (sortedCuts cs u kw ku)"
    by (auto simp: sortedCuts_def sort_desc_def convertedCuts_def list_ex_iff)
  then have "bars_plans n (convertToMm u L) (getKerfInMm kw ku) (sortedCuts cs u kw ku) 0 = []"
    by (simp add: bars_plans_stop)
  then show "calculateOptimalCutPlan n L cs u kw ku = replicate (nat n) \<lparr>cuts = [], waste = L\<rparr>"
    unfolding calc_eq by simp
qed

theorem C2_bar_count_witness:
  "(1::int) \<le> 10
   \<and> int (length (calculateOptimalCutPlan 10 2000 [\<lparr>length_c = 1500, quantity = 6\<rparr>] Mm 3.2 Mm)) = 10
   \<and> calculateOptimalCutPlan 10 2000 [\<lparr>length_c = 1500, quantity = 6\<rparr>] Mm 3.2 Mm ! 7
       = \<lparr>cuts = [], waste = 2000\<rparr>"
proof -
  have h: "(1::int) \<le> 10" by simp
  show ?thesis
    using h C2_bar_count [OF h, of 2000 "[\<lparr>length_c = 1500, quantity = 6\<rparr>]" Mm "3.2" Mm]
    unfolding run_stock_2000 by simp
qed

text \<open>
  C9. For a stock length that is not negative, the waste of every returned plan is not
  negative: the inner loop takes a length off the remaining length only when the
  remaining length is at least that length (lemma \<open>place_while_shape\<close>).
\<close>
theorem C9_waste_nonneg:
  "0 \<le> L \<Longrightarrow> p \<in> set (calculateOptimalCutPlan n L cs u kw ku) \<Longrightarrow> 0 \<le> waste p"
proof -
  assume L: "0 \<le> L" and p: "p \<in> set (calculateOptimalCutPlan n L cs u kw ku)"
  from L have S: "0 \<le> convertToMm u L"
    using unitConversions_pos [of u] by (simp add: convertToMm_def)
  from p show ?thesis
  proof (cases rule: plan_cases)
    case (1 q)
    from bars_plans_waste_nonneg [OF 1(1) S] show ?thesis
      unfolding 1(2) using unitConversions_pos [of u]
      by (simp add: to_display_def convertFromMm_def)
  next
    case 2
    with L show ?thesis by simp
  qed
qed

theorem C9_waste_nonneg_witness:
  "(0::real) \<le> 1000
   \<and> \<lparr>cuts = [400], waste = 600\<rparr> \<in> set (calculateOptimalCutPlan 2 1000
        [\<lparr>length_c = 400, quantity = 3\<rparr>, \<lparr>length_c = 1200, quantity = 1\<rparr>] Mm 0 Mm)
   \<and> (0::real) \<le> waste \<lparr>cuts = [400], waste = 600\<rparr>"
proof -
  have h: "(0::real) \<le> 1000" by simp
  have m: "\<lparr>cuts = [400], waste = 600\<rparr> \<in> set (calculateOptimalCutPlan 2 1000
        [\<lparr>length_c = 400, quantity = 3\<rparr>, \<lparr>length_c = 1200, quantity = 1\<rparr>] Mm 0 Mm)"
    by (simp add: run_too_long)
  show ?thesis
    using h m C9_waste_nonneg [OF h m] by simp
qed

text \<open>
  C10. Empty plans come last: when the plan at index \<open>i\<close> has no cuts, no plan at a
  later index \<open>j\<close> has any.
\<close>
theorem C10_empties_suffix:
  "i < j \<Longrightarrow> j < length (calculateOptimalCutPlan n L cs u kw ku) \<Longrightarrow>
   cuts (calculateOptimalCutPlan n L cs u kw ku ! i) = [] \<Longrightarrow>
   cuts (calculateOptimalCutPlan n L cs u kw ku ! j) = []"
proof -
  have "empties_last (map (to_display u)
      (bars_plans n (convertToMm u L) (getKerfInMm kw ku) (sortedCuts cs u kw ku) 0))"
    by (rule empties_last_map [OF bars_plans_empties_last]) (simp add: to_display_def)
  then have "empties_last (calculateOptimalCutPlan n L cs u kw ku)"
    unfolding calc_eq by (rule empties_last_append) simp
  then show "i < j \<Longrightarrow> j < length (calculateOptimalCutPlan n L cs u kw ku) \<Longrightarrow>
   cuts (calculateOptimalCutPlan n L cs u kw ku ! i) = [] \<Longrightarrow>
   cuts (calculateOptimalCutPlan n L cs u kw ku ! j) = []"
    by (rule empties_last_nth)
qed

theorem C10_empties_suffix_witness:
  "(6::nat) < 8
   \<and> 8 < length (calculateOptimalCutPlan 10 2000 [\<lparr>length_c = 1500, quantity = 6\<rparr>] Mm 3.2 Mm)
   \<and> cuts (calculateOptimalCutPlan 10 2000 [\<lparr>length_c = 1500, quantity = 6\<rparr>] Mm 3.2 Mm ! 6) = []
   \<and> cuts (calculateOptimalCutPlan 10 2000 [\<lparr>length_c = 1500, quantity = 6\<rparr>] Mm 3.2 Mm ! 8) = []"
proof -
  have a: "(6::nat) < 8" by simp
  have b: "8 < length (calculateOptimalCutPlan 10 2000 [\<lparr>length_c = 1500, quantity = 6\<rparr>] Mm 3.2 Mm)"
    unfolding run_stock_2000 by simp
  have c: "cuts (calculateOptimalCutPlan 10 2000 [\<lparr>length_c = 1500, quantity = 6\<rparr>] Mm 3.2 Mm ! 6) = []"
    unfolding run_stock_2000 by simp
  show ?thesis
    using a b c C10_empties_suffix [OF a b c] by simp
qed

lemma sortedCuts_descending: "descending (sortedCuts cs u kw ku)"
  unfolding sortedCuts_def by (rule descending_sort_desc)

text \<open>
  C4. A request whose length with the kerf exceeds the stock length is never placed:
  the run still returns a complete sequence of plans, and no plan holds a cut of that
  length. On stock length 1000, one bar, kerf 0 and one piece of 1200 the result is
  the single empty plan with waste 1000.
\<close>
theorem C4_too_long_never_placed:
  "(c \<in> set cs \<and> convertToMm u L < convertToMm u (length_c c) + getKerfInMm kw ku \<longrightarrow>
      length (calculateOptimalCutPlan n L cs u kw ku) = nat n
      \<and> (\<forall>p\<in>set (calculateOptimalCutPlan n L cs u kw ku). length_c c \<notin> set (cuts p)))
   \<and> calculateOptimalCutPlan 1 1000 [\<lparr>length_c = 1200, quantity = 1\<rparr>] Mm 0 Mm
       = [\<lparr>cuts = [], waste = 1000\<rparr>]"
proof (intro conjI impI ballI)
  let ?bars = "bars_plans n (convertToMm u L) (getKerfInMm kw ku) (sortedCuts cs u kw ku) 0"
  have "length ?bars \<le> nat (n - 0)" by (rule bars_plans_length)
  then show "length (calculateOptimalCutPlan n L cs u kw ku) = nat n"
    unfolding calc_eq by simp
next
  fix p
  assume c: "c \<in> set cs \<and> convertToMm u L < convertToMm u (length_c c) + getKerfInMm kw ku"
    and p: "p \<in> set (calculateOptimalCutPlan n L cs u kw ku)"
  from p show "length_c c \<notin> set (cuts p)"
  proof (cases rule: plan_cases)
    case (1 q)
    show ?thesis
    proof
      assume "length_c c \<in> set (cuts p)"
      then obtain x where x: "x \<in> set (cuts q)" and e: "length_c c = convertFromMm u x"
        unfolding 1(2) by (auto simp: to_display_def)
      from e have "convertToMm u (length_c c) = x" by (simp add: to_mm_from_mm)
      moreover have "x + getKerfInMm kw ku \<le> convertToMm u L"
        by (rule bars_plans_fit [OF sortedCuts_descending 1(1) x])
      ultimately show False using c by simp
    qed
  next
    case 2
    then show ?thesis by simp
  qed
next
  show "calculateOptimalCutPlan 1 1000 [\<lparr>length_c = 1200, quantity = 1\<rparr>] Mm 0 Mm
       = [\<lparr>cuts = [], waste = 1000\<rparr>]"
    by (rule run_stock_1000)
qed

theorem C4_too_long_never_placed_witness:
  "convertToMm Mm 1000 < convertToMm Mm 1200 + getKerfInMm 0 Mm
   \<and> length (calculateOptimalCutPlan 2 1000
        [\<lparr>length_c = 400, quantity = 3\<rparr>, \<lparr>length_c = 1200, quantity = 1\<rparr>] Mm 0 Mm) = 2
   \<and> list_all (\<lambda>p. 1200 \<notin> set (cuts p)) (calculateOptimalCutPlan 2 1000
        [\<lparr>length_c = 400, quantity = 3\<rparr>, \<lparr>length_c = 1200, quantity = 1\<rparr>] Mm 0 Mm)"
proof -
  have h: "\<lparr>length_c = 1200, quantity = 1\<rparr>
             \<in> set [\<lparr>length_c = 400, quantity = 3\<rparr>, \<lparr>length_c = 1200, quantity = 1\<rparr>]
           \<and> convertToMm Mm 1000
               < convertToMm Mm (length_c \<lparr>length_c = 1200, quantity = 1\<rparr>) + getKerfInMm 0 Mm"
    by (simp add: convertToMm_def getKerfInMm_def)
  show ?thesis
    using h C4_too_long_never_placed [of "\<lparr>length_c = 1200, quantity = 1\<rparr>"
        "[\<lparr>length_c = 400, quantity = 3\<rparr>, \<lparr>length_c = 1200, quantity = 1\<rparr>]" Mm 1000 0 Mm 2]
    by (simp add: list_all_iff)
qed







text \<open>
  C8. Zero kerf. With kerf width 0 and lengths in millimetres, the converted cuts are
  the requested cuts (the length with the kerf is the length), and the allocator of
  page.tsx returns exactly the plans that the kerf-free allocator of the component
  file returns on the same number of bars, stock length and requests.
\<close>
theorem C8_zero_kerf:
  "convertedCuts cs Mm 0 ku = cs
   \<and> calculateOptimalCutPlan n L cs Mm 0 ku = calculateOptimalCutPlan_plain n L cs"
proof
  show c: "convertedCuts cs Mm 0 ku = cs"
    by (simp add: convertedCuts_def convertToMm_def getKerfInMm_def)
  have "map (\<lambda>plan. \<lparr>cuts = map (convertFromMm Mm) (cuts plan),
                      waste = convertFromMm Mm (waste plan)\<rparr>) ps = ps" for ps
    by (induction ps) (simp_all add: convertFromMm_def)
  then show "calculateOptimalCutPlan n L cs Mm 0 ku = calculateOptimalCutPlan_plain n L cs"
    by (simp add: calculateOptimalCutPlan_def calculateOptimalCutPlan_plain_def sortedCuts_def c
        convertToMm_def getKerfInMm_def bars_loop_plain_eq split: prod.splits)
qed

section \<open>The run in double arithmetic\<close>

lemma ilog2_bounds:
  "1 \<le> n \<Longrightarrow> 0 \<le> ilog2 n \<and> 2 ^ nat (ilog2 n) \<le> n \<and> n < 2 ^ (nat (ilog2 n) + 1)"
proof (induction n rule: ilog2.induct)
  case (1 n)
  show ?case
  proof (cases "n \<le> 1")
    case True
    with "1.prems" have "n = 1" by simp
    then show ?thesis by (simp add: ilog2.simps)
  next
    case False
    then have h: "1 \<le> n div 2" by simp
    from "1.IH" [OF False h] have k: "0 \<le> ilog2 (n div 2)"
      and lo: "2 ^ nat (ilog2 (n div 2)) \<le> n div 2"
      and hi: "n div 2 < 2 ^ (nat (ilog2 (n div 2)) + 1)"
      by simp_all
    from False have e: "ilog2 n = 1 + ilog2 (n div 2)"
      by (subst ilog2.simps) simp
    from k have n: "nat (1 + ilog2 (n div 2)) = Suc (nat (ilog2 (n div 2)))"
      by simp
    have "2 * (n div 2) \<le> n" "n < 2 * (n div 2) + 2" by simp_all
    with lo hi k show ?thesis
      unfolding e n by simp
  qed
qed

lemma flog2_bounds:
  assumes "0 < a"
  shows "2 powi flog2 a \<le> a \<and> a < 2 powi (flog2 a + 1)"
proof (cases "1 \<le> a")
  case True
  then have f: "1 \<le> \<lfloor>a\<rfloor>" by simp
  let ?k = "ilog2 \<lfloor>a\<rfloor>"
  from ilog2_bounds [OF f] have k: "0 \<le> ?k" and lo: "2 ^ nat ?k \<le> \<lfloor>a\<rfloor>"
    and hi: "\<lfloor>a\<rfloor> < 2 ^ (nat ?k + 1)"
    by simp_all
  from lo have "(2::real) ^ nat ?k \<le> of_int \<lfloor>a\<rfloor>"
    by (metis of_int_le_iff of_int_numeral of_int_power)
  then have 1: "(2::real) ^ nat ?k \<le> a" by linarith
  from hi have "\<lfloor>a\<rfloor> + 1 \<le> 2 ^ (nat ?k + 1)" by simp
  then have "of_int (\<lfloor>a\<rfloor> + 1) \<le> (2::real) ^ (nat ?k + 1)"
    by (metis of_int_le_iff of_int_numeral of_int_power)
  then have 2: "a < (2::real) ^ (nat ?k + 1)" by linarith
  from k have "2 powi ?k = (2::real) ^ nat ?k" "2 powi (?k + 1) = (2::real) ^ (nat ?k + 1)"
    by (simp_all add: power_int_def nat_add_distrib)
  with 1 2 True show ?thesis by (simp add: flog2_def)
next
  case False
  with assms have y: "1 < 1 / a" by simp
  let ?m = "\<lceil>1 / a\<rceil>"
  let ?k = "ilog2 (?m - 1)"
  from y have m: "1 \<le> ?m - 1" by linarith
  from ilog2_bounds [OF m] have k: "0 \<le> ?k" and lo: "2 ^ nat ?k \<le> ?m - 1"
    and hi: "?m - 1 < 2 ^ (nat ?k + 1)"
    by simp_all
  from lo have "(2::real) ^ nat ?k \<le> of_int (?m - 1)"
    by (metis of_int_le_iff of_int_numeral of_int_power)
  then have "(2::real) ^ nat ?k < 1 / a" by linarith
  then have 2: "a < 1 / (2::real) ^ nat ?k"
    using assms by (simp add: field_simps)
  from hi have "?m \<le> 2 ^ (nat ?k + 1)" by simp
  then have "of_int ?m \<le> (2::real) ^ (nat ?k + 1)"
    by (metis of_int_le_iff of_int_numeral of_int_power)
  then have "1 / a \<le> (2::real) ^ (nat ?k + 1)" by linarith
  then have 1: "1 / (2::real) ^ (nat ?k + 1) \<le> a"
    using assms by (simp add: field_simps)
  from k have "2 powi (- (?k + 1)) = 1 / (2::real) ^ (nat ?k + 1)"
    "2 powi (- (?k + 1) + 1) = 1 / (2::real) ^ nat ?k"
    by (simp_all add: power_int_def nat_add_distrib field_simps)
  with 1 2 False show ?thesis by (simp add: flog2_def)
qed

lemma round_even_near: "\<bar>of_int (round_even q) - q\<bar> \<le> 1 / 2"
  unfolding round_even_def Let_def by (auto simp: abs_if) linarith+

lemma round_double_near:
  "\<bar>round_double x - x\<bar> \<le> 2 powi ulp_exponent x / 2"
proof (cases "x = 0")
  case True
  then show ?thesis by (simp add: round_double_def)
next
  case False
  let ?u = "(2::real) powi ulp_exponent x"
  have u: "0 < ?u" by simp
  have "round_double x - x = (of_int (round_even (x / ?u)) - x / ?u) * ?u"
    using False u by (simp add: round_double_def left_diff_distrib)
  then have "\<bar>round_double x - x\<bar> = \<bar>of_int (round_even (x / ?u)) - x / ?u\<bar> * ?u"
    using u by (simp add: abs_mult)
  also have "\<dots> \<le> 1 / 2 * ?u"
    using round_even_near [of "x / ?u"] u by (intro mult_right_mono) simp_all
  finally show ?thesis by simp
qed

text \<open>
  A number that has a significand below \<open>2 ^ 53\<close> at an exponent from \<open>-1074\<close> on is
  a double, and the rounding leaves it as it is.
\<close>

lemma round_even_of_int: "round_even (of_int m) = m"
  by (simp add: round_even_def)

lemma round_double_fixed:
  assumes e: "- 1074 \<le> e" and m: "\<bar>m\<bar> < 2 ^ 53"
  shows "round_double (of_int m * 2 powi e) = of_int m * 2 powi e"
proof (cases "m = 0")
  case True
  then show ?thesis by (simp add: round_double_def)
next
  case False
  define x :: real where "x = of_int m * 2 powi e"
  define u where "u = ulp_exponent x"
  from False have x: "0 < \<bar>x\<bar>" "x \<noteq> 0" by (simp_all add: x_def)
  have "\<bar>x\<bar> = of_int \<bar>m\<bar> * 2 powi e" by (simp add: x_def abs_mult)
  also have "\<dots> < 2 ^ 53 * 2 powi e"
  proof -
    from m have "(of_int \<bar>m\<bar> :: real) < of_int (2 ^ 53)" by (simp only: of_int_less_iff)
    then show ?thesis by simp
  qed
  also have "\<dots> = 2 powi (e + 53)"
    by (simp add: power_int_add)
  finally have "\<bar>x\<bar> < 2 powi (e + 53)" .
  with flog2_bounds [OF x(1)] have "(2::real) powi flog2 \<bar>x\<bar> < 2 powi (e + 53)" by linarith
  then have "flog2 \<bar>x\<bar> < e + 53"
    using power_int_increasing [of "e + 53" "flog2 \<bar>x\<bar>" "2::real"]
    by (cases "flog2 \<bar>x\<bar> < e + 53") simp_all
  with e have "u \<le> e" by (simp add: u_def ulp_exponent_def)
  then obtain d where d: "e = u + int d"
    by (metis nonneg_int_cases diff_ge_0_iff_ge diff_add_cancel add.commute)
  have p: "(2::real) powi e = 2 ^ d * 2 powi u"
    unfolding d by (simp add: power_int_add add.commute)
  have q: "x / 2 powi u = of_int (m * 2 ^ d)"
    unfolding x_def p by simp
  have "round_double x = of_int (round_even (x / 2 powi u)) * 2 powi u"
    using x(2) by (simp add: round_double_def u_def)
  also have "\<dots> = of_int (m * 2 ^ d) * 2 powi u"
    unfolding q round_even_of_int ..
  also have "\<dots> = x"
    unfolding x_def p by simp
  finally show ?thesis unfolding x_def .
qed

lemmas double_simps = to_number_def round_double_def ulp_exponent_def flog2_def ilog2.simps
  round_even_def Let_def power_int_minus dadd_def dsub_def dmul_def ddiv_def

lemma double_3_2: "round_double 3.2 = 3602879701896397 / 1125899906842624"
  by (simp add: double_simps)

lemma double_496_8: "round_double 496.8 = 8739798026865869 / 17592186044416"
  by (simp add: double_simps)

lemma kerf_mm_stock_2000: "getKerfInMm_d (3602879701896397 / 1125899906842624) Mm
    = Some (3602879701896397 / 1125899906842624)"
  by (simp add: getKerfInMm_d_def unitConversions_d_def double_simps)

lemma stock_mm_stock_2000: "convertToMm_d Mm 2000 = Some 2000"
  by (simp add: convertToMm_d_def unitConversions_d_def double_simps)

lemma convertedCuts_d_stock_2000: "convertedCuts_d Mm (3602879701896397 / 1125899906842624) [\<lparr>length_c = 1500, quantity = 6\<rparr>]
   = Some [\<lparr>length_c = 6611143515491533 / 4398046511104, quantity = 6\<rparr>]"
  by (simp add: convertToMm_d_def unitConversions_d_def double_simps)

lemma place_while_d_stock_2000: "place_while_d (3602879701896397 / 1125899906842624)
     \<lparr>length_c = 6611143515491533 / 4398046511104, quantity = q\<rparr> 2000 [] =
   (if q > 0 then Some (\<lparr>length_c = 6611143515491533 / 4398046511104, quantity = q - 1\<rparr>,
      2184949506716467 / 4398046511104, [1500])
    else Some (\<lparr>length_c = 6611143515491533 / 4398046511104, quantity = q\<rparr>, 2000, []))"
  by (simp add: place_while_d.simps double_simps)

lemma run_d_stock_2000:
  "calculateOptimalCutPlan_d 10 2000 [\<lparr>length_c = 1500, quantity = 6\<rparr>] Mm (round_double 3.2) Mm =
     Some [\<lparr>cuts = [1500], waste = 2184949506716467 / 4398046511104\<rparr>,
      \<lparr>cuts = [1500], waste = 2184949506716467 / 4398046511104\<rparr>,
      \<lparr>cuts = [1500], waste = 2184949506716467 / 4398046511104\<rparr>,
      \<lparr>cuts = [1500], waste = 2184949506716467 / 4398046511104\<rparr>,
      \<lparr>cuts = [1500], waste = 2184949506716467 / 4398046511104\<rparr>,
      \<lparr>cuts = [1500], waste = 2184949506716467 / 4398046511104\<rparr>,
      \<lparr>cuts = [], waste = 2000\<rparr>, \<lparr>cuts = [], waste = 2000\<rparr>,
      \<lparr>cuts = [], waste = 2000\<rparr>, \<lparr>cuts = [], waste = 2000\<rparr>]"
  unfolding double_3_2 calculateOptimalCutPlan_d_def stock_mm_stock_2000 kerf_mm_stock_2000 convertedCuts_d_stock_2000 option.case
  by (simp add: sort_desc_def bars_loop_d.simps place_while_d_stock_2000 pad_loop.simps to_display_d_def
      convertFromMm_d_def unitConversions_d_def double_simps)

text \<open>
  C3, as stated, fails on the code: on stock length 2000, ten bars, kerf 3.2 and six
  pieces of 1500, the waste of the first six plans is not the number 496.8 (the double
  nearest to it), and not the real 496.8 either.
\<close>

theorem C3_stock_2000_counterexample:
  "calculateOptimalCutPlan_d 10 2000 [\<lparr>length_c = 1500, quantity = 6\<rparr>] Mm (round_double 3.2) Mm \<noteq>
     Some [\<lparr>cuts = [1500], waste = round_double 496.8\<rparr>, \<lparr>cuts = [1500], waste = round_double 496.8\<rparr>,
      \<lparr>cuts = [1500], waste = round_double 496.8\<rparr>, \<lparr>cuts = [1500], waste = round_double 496.8\<rparr>,
      \<lparr>cuts = [1500], waste = round_double 496.8\<rparr>, \<lparr>cuts = [1500], waste = round_double 496.8\<rparr>,
      \<lparr>cuts = [], waste = 2000\<rparr>, \<lparr>cuts = [], waste = 2000\<rparr>,
      \<lparr>cuts = [], waste = 2000\<rparr>, \<lparr>cuts = [], waste = 2000\<rparr>]
   \<and> calculateOptimalCutPlan_d 10 2000 [\<lparr>length_c = 1500, quantity = 6\<rparr>] Mm (round_double 3.2) Mm \<noteq>
     Some [\<lparr>cuts = [1500], waste = 496.8\<rparr>, \<lparr>cuts = [1500], waste = 496.8\<rparr>,
      \<lparr>cuts = [1500], waste = 496.8\<rparr>, \<lparr>cuts = [1500], waste = 496.8\<rparr>,
      \<lparr>cuts = [1500], waste = 496.8\<rparr>, \<lparr>cuts = [1500], waste = 496.8\<rparr>,
      \<lparr>cuts = [], waste = 2000\<rparr>, \<lparr>cuts = [], waste = 2000\<rparr>,
      \<lparr>cuts = [], waste = 2000\<rparr>, \<lparr>cuts = [], waste = 2000\<rparr>]"
  unfolding run_d_stock_2000 double_496_8 by simp

text \<open>
  C3, amended. On stock length 2000, ten bars, kerf 3.2 and six pieces of 1500 (all in
  millimetres), the result has exactly ten plans: the first six hold the cut 1500, and
  their waste is \<open>2000 - (1500 + 3.2)\<close> as double arithmetic computes it,
  \<open>2184949506716467 / 2 ^ 42\<close>, which prints as 496.79999999999995 and differs
  from 496.8 by less than \<open>1 / 10 ^ 13\<close>; the last four are empty with waste 2000.
  Over exact arithmetic the waste of the first six is 496.8.
\<close>

theorem C3_stock_2000_doubles:
  "calculateOptimalCutPlan_d 10 2000 [\<lparr>length_c = 1500, quantity = 6\<rparr>] Mm (round_double 3.2) Mm =
     Some [\<lparr>cuts = [1500], waste = 2184949506716467 / 2 ^ 42\<rparr>,
      \<lparr>cuts = [1500], waste = 2184949506716467 / 2 ^ 42\<rparr>,
      \<lparr>cuts = [1500], waste = 2184949506716467 / 2 ^ 42\<rparr>,
      \<lparr>cuts = [1500], waste = 2184949506716467 / 2 ^ 42\<rparr>,
      \<lparr>cuts = [1500], waste = 2184949506716467 / 2 ^ 42\<rparr>,
      \<lparr>cuts = [1500], waste = 2184949506716467 / 2 ^ 42\<rparr>,
      \<lparr>cuts = [], waste = 2000\<rparr>, \<lparr>cuts = [], waste = 2000\<rparr>,
      \<lparr>cuts = [], waste = 2000\<rparr>, \<lparr>cuts = [], waste = 2000\<rparr>]
   \<and> \<bar>2184949506716467 / 2 ^ 42 - 496.8\<bar> < (1 / 10 ^ 13 :: real)
   \<and> calculateOptimalCutPlan 10 2000 [\<lparr>length_c = 1500, quantity = 6\<rparr>] Mm 3.2 Mm =
     [\<lparr>cuts = [1500], waste = 496.8\<rparr>, \<lparr>cuts = [1500], waste = 496.8\<rparr>,
      \<lparr>cuts = [1500], waste = 496.8\<rparr>, \<lparr>cuts = [1500], waste = 496.8\<rparr>,
      \<lparr>cuts = [1500], waste = 496.8\<rparr>, \<lparr>cuts = [1500], waste = 496.8\<rparr>,
      \<lparr>cuts = [], waste = 2000\<rparr>, \<lparr>cuts = [], waste = 2000\<rparr>,
      \<lparr>cuts = [], waste = 2000\<rparr>, \<lparr>cuts = [], waste = 2000\<rparr>]"
  unfolding run_d_stock_2000 run_stock_2000 by simp

section \<open>The run on the store\<close>

lemma place_while_h_refines:
  "place_while k (objs h a) r cur = (c', r', cur') \<Longrightarrow>
   place_while_h k a r cur h = (r', cur', h\<lparr>objs := (objs h)(a := c')\<rparr>)"
proof (induction k a r cur h rule: place_while_h.induct)
  case (1 k a r cur h)
  show ?case
  proof (cases "quantity (objs h a) > 0 \<and> r \<ge> length_c (objs h a)")
    case False
    with "1.prems" have "c' = objs h a" "r' = r" "cur' = cur"
      by (auto simp: place_while.simps [of k "objs h a"])
    with False show ?thesis
      by (subst place_while_h.simps) auto
  next
    case True
    let ?c = "(objs h a)\<lparr>quantity := quantity (objs h a) - 1\<rparr>"
    let ?h = "h\<lparr>objs := (objs h)(a := ?c)\<rparr>"
    from "1.prems" True have "place_while k ?c (r - length_c (objs h a))
        (cur @ [length_c (objs h a) - k]) = (c', r', cur')"
      by (subst (asm) place_while.simps) simp
    then have "place_while k (objs ?h a) (r - length_c (objs h a))
        (cur @ [length_c (objs h a) - k]) = (c', r', cur')"
      by simp
    from "1.IH" [OF True this]
    have run: "place_while_h k a (r - length_c (objs h a)) (cur @ [length_c (objs h a) - k]) ?h
        = (r', cur', ?h\<lparr>objs := (objs ?h)(a := c')\<rparr>)" .
    have e: "?h\<lparr>objs := (objs ?h)(a := c')\<rparr> = h\<lparr>objs := (objs h)(a := c')\<rparr>"
      by simp
    have "place_while_h k a r cur h =
        place_while_h k a (r - length_c (objs h a)) (cur @ [length_c (objs h a) - k]) ?h"
      using True by (subst place_while_h.simps) simp
    then show ?thesis
      unfolding run e .
  qed
qed

lemma for_cuts_h_refines:
  "distinct refs \<Longrightarrow> for_cuts k (map (objs h) refs) r cur = (rc', r', cur') \<Longrightarrow>
   \<exists>h'. for_cuts_h k refs r cur h = (r', cur', h') \<and> map (objs h') refs = rc'
        \<and> (\<forall>b. b \<notin> set refs \<longrightarrow> objs h' b = objs h b) \<and> fresh h' = fresh h"
proof (induction refs arbitrary: h r cur rc' r' cur')
  case Nil
  then show ?case by simp
next
  case (Cons a rest)
  obtain c1 r1 cur1 where pw: "place_while k (objs h a) r cur = (c1, r1, cur1)"
    by (cases "place_while k (objs h a) r cur") auto
  let ?h = "h\<lparr>objs := (objs h)(a := c1)\<rparr>"
  from Cons.prems(1) have na: "a \<notin> set rest" and d: "distinct rest" by simp_all
  from na have same: "map (objs ?h) rest = map (objs h) rest" by (induction rest) auto
  obtain rest' r2 cur2 where fc0: "for_cuts k (map (objs h) rest) r1 cur1 = (rest', r2, cur2)"
    by (cases "for_cuts k (map (objs h) rest) r1 cur1") auto
  then have fc: "for_cuts k (map (objs ?h) rest) r1 cur1 = (rest', r2, cur2)"
    unfolding same .
  from Cons.prems(2) pw fc0 have res: "rc' = c1 # rest'" "r' = r2" "cur' = cur2"
    by simp_all
  from Cons.IH [OF d fc] obtain h' where
    run: "for_cuts_h k rest r1 cur1 ?h = (r2, cur2, h')" and m: "map (objs h') rest = rest'"
    and fr: "\<forall>b. b \<notin> set rest \<longrightarrow> objs h' b = objs ?h b" and nx: "fresh h' = fresh ?h"
    by blast
  show ?case
  proof (intro exI [of _ h'] conjI allI impI)
    show "for_cuts_h k (a # rest) r cur h = (r', cur', h')"
      using place_while_h_refines [OF pw] run res by simp
    show "map (objs h') (a # rest) = rc'"
      using m fr na res by simp
    show "objs h' b = objs h b" if "b \<notin> set (a # rest)" for b
      using fr that by simp
    show "fresh h' = fresh h" using nx by simp
  qed
qed

lemma bars_loop_h_refines:
  "distinct refs \<Longrightarrow>
   \<exists>h'. bars_loop_h n S k refs i plans h =
          (fst (bars_loop n S k (map (objs h) refs) i plans),
           snd (bars_loop n S k (map (objs h) refs) i plans), h')
        \<and> (\<forall>b. b \<notin> set refs \<longrightarrow> objs h' b = objs h b) \<and> fresh h' = fresh h"
proof (induction n S k refs i plans h rule: bars_loop_h.induct)
  case (1 n S k refs i plans h)
  have ex: "list_ex (\<lambda>c. quantity c > 0) (map (objs h) refs)
      \<longleftrightarrow> list_ex (\<lambda>a. quantity (objs h a) > 0) refs"
    by (simp add: list_ex_iff)
  show ?case
  proof (cases "i < n \<and> list_ex (\<lambda>a. quantity (objs h a) > 0) refs")
    case False
    then have stop: "\<not> (i < n \<and> list_ex (\<lambda>c. quantity c > 0) (map (objs h) refs))"
      unfolding ex .
    have "bars_loop_h n S k refs i plans h = (i, plans, h)"
      using False by (subst bars_loop_h.simps) auto
    then show ?thesis
      by (simp add: bars_loop_stop [OF stop])
  next
    case True
    then have go: "i < n \<and> list_ex (\<lambda>c. quantity c > 0) (map (objs h) refs)"
      unfolding ex .
    obtain rc' r cur where fc: "for_cuts k (map (objs h) refs) S [] = (rc', r, cur)"
      by (cases "for_cuts k (map (objs h) refs) S []") auto
    from for_cuts_h_refines [OF "1.prems" fc] obtain h1 where
      run: "for_cuts_h k refs S [] h = (r, cur, h1)" and m: "map (objs h1) refs = rc'"
      and fr: "\<forall>b. b \<notin> set refs \<longrightarrow> objs h1 b = objs h b" and nx: "fresh h1 = fresh h"
      by blast
    from "1.IH" [OF True run [symmetric] refl "1.prems"] obtain h' where
      rest: "bars_loop_h n S k refs (i + 1) (plans @ [\<lparr>cuts = cur, waste = r\<rparr>]) h1 =
          (fst (bars_loop n S k (map (objs h1) refs) (i + 1) (plans @ [\<lparr>cuts = cur, waste = r\<rparr>])),
           snd (bars_loop n S k (map (objs h1) refs) (i + 1) (plans @ [\<lparr>cuts = cur, waste = r\<rparr>])), h')"
      and fr': "\<forall>b. b \<notin> set refs \<longrightarrow> objs h' b = objs h1 b" and nx': "fresh h' = fresh h1"
      by blast
    have step: "bars_loop_h n S k refs i plans h =
        bars_loop_h n S k refs (i + 1) (plans @ [\<lparr>cuts = cur, waste = r\<rparr>]) h1"
      using True run by (subst bars_loop_h.simps) simp
    show ?thesis
    proof (intro exI [of _ h'] conjI allI impI)
      show "bars_loop_h n S k refs i plans h =
          (fst (bars_loop n S k (map (objs h) refs) i plans),
           snd (bars_loop n S k (map (objs h) refs) i plans), h')"
        unfolding step rest m bars_loop_step [OF go fc] ..
      show "objs h' b = objs h b" if "b \<notin> set refs" for b
        using fr fr' that by simp
      show "fresh h' = fresh h" using nx nx' by simp
    qed
  qed
qed

lemma convertedCuts_h_facts:
  "\<forall>a\<in>set refs. a < fresh h \<Longrightarrow>
   \<exists>h1. convertedCuts_h u k refs h = ([fresh h ..< fresh h + length refs], h1)
        \<and> fresh h1 = fresh h + length refs
        \<and> (\<forall>a. a < fresh h \<longrightarrow> objs h1 a = objs h a)
        \<and> map (objs h1) [fresh h ..< fresh h + length refs]
            = map (\<lambda>c. c\<lparr>length_c := convertToMm u (length_c c) + k\<rparr>) (map (objs h) refs)"
proof (induction refs arbitrary: h)
  case Nil
  then show ?case by simp
next
  case (Cons a rest)
  let ?c = "(objs h a)\<lparr>length_c := convertToMm u (length_c (objs h a)) + k\<rparr>"
  let ?h = "h\<lparr>objs := (objs h)(fresh h := ?c), fresh := fresh h + 1\<rparr>"
  from Cons.prems have "\<forall>b\<in>set rest. b < fresh ?h" by auto
  from Cons.IH [OF this] obtain h1 where
    run: "convertedCuts_h u k rest ?h = ([fresh ?h ..< fresh ?h + length rest], h1)"
    and nx: "fresh h1 = fresh ?h + length rest"
    and old: "\<forall>b. b < fresh ?h \<longrightarrow> objs h1 b = objs ?h b"
    and new: "map (objs h1) [fresh ?h ..< fresh ?h + length rest]
            = map (\<lambda>c. c\<lparr>length_c := convertToMm u (length_c c) + k\<rparr>) (map (objs ?h) rest)"
    by blast
  have same: "map (objs ?h) rest = map (objs h) rest"
    using Cons.prems by (induction rest) auto
  have up: "[fresh h ..< fresh h + length (a # rest)] = fresh h # [fresh ?h ..< fresh ?h + length rest]"
    by (subst upt_conv_Cons) simp_all
  show ?case
  proof (intro exI [of _ h1] conjI allI impI)
    show "convertedCuts_h u k (a # rest) h = ([fresh h ..< fresh h + length (a # rest)], h1)"
      unfolding up using run by simp
    show "fresh h1 = fresh h + length (a # rest)" using nx by simp
    show "objs h1 b = objs h b" if "b < fresh h" for b
      using old that by simp
    have "objs h1 (fresh h) = ?c" using old by simp
    then show "map (objs h1) [fresh h ..< fresh h + length (a # rest)]
        = map (\<lambda>c. c\<lparr>length_c := convertToMm u (length_c c) + k\<rparr>) (map (objs h) (a # rest))"
      unfolding up using new same by simp
  qed
qed

lemma sort_contract_sort_desc:
  assumes "sort_contract srt"
  shows "map g (srt (\<lambda>a b. length_c (g b) - length_c (g a)) xs) = sort_desc (map g xs)"
proof -
  let ?len = "\<lambda>a. length_c (g a)"
  let ?ys = "srt (\<lambda>a b. ?len b - ?len a) xs"
  from assms have all: "mset ?ys = mset xs
      \<and> sorted_wrt (\<lambda>a b. ?len b - ?len a \<le> 0) ?ys
      \<and> (\<forall>x. filter (\<lambda>y. ?len y - ?len x = 0) ?ys = filter (\<lambda>y. ?len y - ?len x = 0) xs)"
    unfolding sort_contract_def by (elim allE [of _ ?len] allE [of _ xs])
  then have m: "mset ?ys = mset xs"
    and s: "sorted_wrt (\<lambda>a b. ?len b - ?len a \<le> 0) ?ys"
    and t: "\<And>x. filter (\<lambda>y. ?len y - ?len x = 0) ?ys = filter (\<lambda>y. ?len y - ?len x = 0) xs"
    by simp_all
  have "sort_key (\<lambda>c. - length_c c) (map g xs) = map g ?ys"
  proof (rule properties_for_sort_key)
    show "mset (map g ?ys) = mset (map g xs)"
      using m by simp
    show "sorted (map (\<lambda>c. - length_c c) (map g ?ys))"
      using s by (simp add: sorted_map sorted_wrt_map)
    fix c
    assume "c \<in> set (map g ?ys)"
    then obtain x where c: "c = g x" by auto
    have e: "((\<lambda>d. - length_c c = - length_c d) \<circ> g) = (\<lambda>y. ?len y - ?len x = 0)"
      unfolding c by (auto simp: comp_def)
    show "filter (\<lambda>d. - length_c c = - length_c d) (map g ?ys)
        = filter (\<lambda>d. - length_c c = - length_c d) (map g xs)"
      unfolding filter_map e t [of x] ..
  qed
  then show ?thesis by (simp add: sort_desc_def)
qed

text \<open>
  The loops do write to the objects they are given: run on a caller's object itself,
  the first loop leaves its quantity at zero. The run of \<open>calculateOptimalCutPlan_h\<close>
  keeps the caller's cuts because it hands the loops its copies.
\<close>

lemma bars_loop_h_writes:
  "quantity (objs (snd (snd (bars_loop_h 1 100 0 [0] 0 []
      \<lparr>objs = (\<lambda>_. \<lparr>length_c = 0, quantity = 0\<rparr>)(0 := \<lparr>length_c = 30, quantity = 2\<rparr>),
       fresh = 1\<rparr>))) 0) = 0"
  by (simp add: bars_loop_h.simps place_while_h.simps)

lemma sort_contract_mset:
  assumes "sort_contract srt"
  shows "mset (srt (\<lambda>a b. len b - len a) xs) = mset xs"
proof -
  from assms have "mset (srt (\<lambda>a b. len b - len a) xs) = mset xs
      \<and> sorted_wrt (\<lambda>a b. len b - len a \<le> 0) (srt (\<lambda>a b. len b - len a) xs)
      \<and> (\<forall>x. filter (\<lambda>y. len y - len x = 0) (srt (\<lambda>a b. len b - len a) xs)
             = filter (\<lambda>y. len y - len x = 0) xs)"
    unfolding sort_contract_def by (elim allE [of _ len] allE [of _ xs])
  then show ?thesis by simp
qed

lemma sortedCuts_h_facts:
  assumes srt: "sort_contract srt" and wf: "\<forall>a\<in>set refs. a < fresh h"
  shows "\<exists>rs h1. sortedCuts_h srt refs u kw ku h = (rs, h1)
          \<and> map (objs h1) rs = sortedCuts (map (objs h) refs) u kw ku
          \<and> distinct rs \<and> (\<forall>a\<in>set rs. fresh h \<le> a)
          \<and> (\<forall>a. a < fresh h \<longrightarrow> objs h1 a = objs h a) \<and> fresh h \<le> fresh h1"
proof -
  let ?k = "getKerfInMm kw ku"
  let ?rs = "[fresh h ..< fresh h + length refs]"
  from convertedCuts_h_facts [OF wf, of u ?k] obtain h1 where
    conv: "convertedCuts_h u ?k refs h = (?rs, h1)"
    and nx: "fresh h1 = fresh h + length refs"
    and old: "\<forall>a. a < fresh h \<longrightarrow> objs h1 a = objs h a"
    and new: "map (objs h1) ?rs = convertedCuts (map (objs h) refs) u kw ku"
    unfolding convertedCuts_def by blast
  let ?sorted = "srt (\<lambda>a b. length_c (objs h1 b) - length_c (objs h1 a)) ?rs"
  have m: "mset ?sorted = mset ?rs"
    by (rule sort_contract_mset [OF srt, of "\<lambda>a. length_c (objs h1 a)"])
  then have d: "distinct ?sorted"
    using mset_eq_imp_distinct_iff [OF m] by simp
  from m have st: "set ?sorted = set ?rs"
    by (rule mset_eq_setD)
  have work: "map (objs h1) ?sorted = sortedCuts (map (objs h) refs) u kw ku"
    unfolding sortedCuts_def new [symmetric] by (rule sort_contract_sort_desc [OF srt])
  show ?thesis
  proof (intro exI [of _ ?sorted] exI [of _ h1] conjI)
    show "sortedCuts_h srt refs u kw ku h = (?sorted, h1)"
      by (simp add: sortedCuts_h_def conv)
    show "\<forall>a\<in>set ?sorted. fresh h \<le> a" unfolding st by simp
    show "fresh h \<le> fresh h1" using nx by simp
  qed (rule work d old)+
qed

lemma calculateOptimalCutPlan_h_refines:
  assumes srt: "sort_contract srt" and wf: "\<forall>a\<in>set refs. a < fresh h"
  shows "\<exists>h'. calculateOptimalCutPlan_h srt n L refs u kw ku h
            = (calculateOptimalCutPlan n L (map (objs h) refs) u kw ku, h')
          \<and> (\<forall>a. a < fresh h \<longrightarrow> objs h' a = objs h a) \<and> fresh h \<le> fresh h'"
proof -
  let ?k = "getKerfInMm kw ku" and ?S = "convertToMm u L"
  from sortedCuts_h_facts [OF srt wf, of u kw ku] obtain rs h1 where
    sorted: "sortedCuts_h srt refs u kw ku h = (rs, h1)"
    and work: "map (objs h1) rs = sortedCuts (map (objs h) refs) u kw ku"
    and d: "distinct rs" and new: "\<forall>a\<in>set rs. fresh h \<le> a"
    and old: "\<forall>a. a < fresh h \<longrightarrow> objs h1 a = objs h a" and nx: "fresh h \<le> fresh h1"
    by blast
  from bars_loop_h_refines [OF d, of n ?S ?k 0 "[]" h1] obtain h2 where
    run: "bars_loop_h n ?S ?k rs 0 [] h1 =
          (fst (bars_loop n ?S ?k (map (objs h1) rs) 0 []),
           snd (bars_loop n ?S ?k (map (objs h1) rs) 0 []), h2)"
    and fr: "\<forall>b. b \<notin> set rs \<longrightarrow> objs h2 b = objs h1 b" and nx2: "fresh h2 = fresh h1"
    by blast
  show ?thesis
  proof (intro exI [of _ h2] conjI allI impI)
    show "calculateOptimalCutPlan_h srt n L refs u kw ku h
            = (calculateOptimalCutPlan n L (map (objs h) refs) u kw ku, h2)"
      by (simp add: calculateOptimalCutPlan_h_def calculateOptimalCutPlan_def Let_def sorted run work
          split: prod.splits)
    show "objs h2 a = objs h a" if "a < fresh h" for a
    proof -
      from that new have "a \<notin> set rs" by auto
      with fr old that show ?thesis by simp
    qed
    show "fresh h \<le> fresh h2" using nx nx2 by simp
  qed
qed

lemma insert_by_insort:
  "insert_by (\<lambda>a b. len b - len a) x ys = insort_key (\<lambda>a. - len a) x ys"
  by (induction ys) simp_all

lemma insertion_sort_sort_key:
  "insertion_sort (\<lambda>a b. len b - len a) xs = sort_key (\<lambda>a. - len a) xs"
  unfolding insertion_sort_def by (induction xs) (simp_all add: insert_by_insort)

lemma insertion_sort_contract: "sort_contract insertion_sort"
  unfolding sort_contract_def
proof (intro allI conjI)
  fix len :: "nat \<Rightarrow> real" and xs :: "nat list" and x
  show "mset (insertion_sort (\<lambda>a b. len b - len a) xs) = mset xs"
    by (simp add: insertion_sort_sort_key)
  have "sorted (map (\<lambda>a. - len a) (sort_key (\<lambda>a. - len a) xs))"
    by (rule sorted_sort_key)
  then show "sorted_wrt (\<lambda>a b. len b - len a \<le> 0) (insertion_sort (\<lambda>a b. len b - len a) xs)"
    by (simp add: insertion_sort_sort_key sorted_map)
  have "filter (\<lambda>y. - len y = - len x) (sort_key (\<lambda>a. - len a) xs)
      = filter (\<lambda>y. - len y = - len x) xs"
    by (rule sort_key_stable)
  then show "filter (\<lambda>y. len y - len x = 0) (insertion_sort (\<lambda>a b. len b - len a) xs)
      = filter (\<lambda>y. len y - len x = 0) xs"
    by (simp add: insertion_sort_sort_key)
qed

text \<open>
  C7. Determinism. For every sort of the engine that meets the contract and every store
  in which the caller's references are allocated: the plans are those of the function
  \<open>calculateOptimalCutPlan\<close> on the values of the caller's cuts, so they depend on
  nothing else (not on the sort, not on the references, not on the rest of the store);
  the run leaves the caller's cuts as they were, since it writes to its own copies
  only; hence a second run, on the store that the first one left, returns the same
  plans, and so does a run on any store and array that hold the same values. The
  working list that the loops walk, whatever the sort, holds the cuts \<open>sortedCuts\<close>,
  in this order: descending in the length with the kerf, the converted cuts and no
  others, cuts of equal length in the order of the input.
\<close>

theorem C7_deterministic:
  assumes "sort_contract srt" and "sort_contract srt'" and "\<forall>a\<in>set refs. a < fresh h"
  shows "(case calculateOptimalCutPlan_h srt n L refs u kw ku h of
           (plans, h') \<Rightarrow>
             plans = calculateOptimalCutPlan n L (map (objs h) refs) u kw ku
             \<and> map (objs h') refs = map (objs h) refs
             \<and> fst (calculateOptimalCutPlan_h srt' n L refs u kw ku h') = plans
             \<and> (\<forall>refs' g. (\<forall>a\<in>set refs'. a < fresh g) \<and> map (objs g) refs' = map (objs h) refs
                  \<longrightarrow> fst (calculateOptimalCutPlan_h srt' n L refs' u kw ku g) = plans))
         \<and> (case sortedCuts_h srt refs u kw ku h of
              (rs, h1) \<Rightarrow> map (objs h1) rs = sortedCuts (map (objs h) refs) u kw ku)
         \<and> descending (sortedCuts (map (objs h) refs) u kw ku)
         \<and> mset (sortedCuts (map (objs h) refs) u kw ku)
             = mset (convertedCuts (map (objs h) refs) u kw ku)
         \<and> (\<forall>l. filter (\<lambda>c. length_c c = l) (sortedCuts (map (objs h) refs) u kw ku)
                = filter (\<lambda>c. length_c c = l) (convertedCuts (map (objs h) refs) u kw ku))"
proof -
  let ?cs = "map (objs h) refs"
  from calculateOptimalCutPlan_h_refines [OF assms(1) assms(3), of n L u kw ku] obtain h' where
    run: "calculateOptimalCutPlan_h srt n L refs u kw ku h = (calculateOptimalCutPlan n L ?cs u kw ku, h')"
    and old: "\<forall>a. a < fresh h \<longrightarrow> objs h' a = objs h a" and nx: "fresh h \<le> fresh h'"
    by blast
  from sortedCuts_h_facts [OF assms(1) assms(3), of u kw ku] obtain rs h1 where
    work: "sortedCuts_h srt refs u kw ku h = (rs, h1)"
      "map (objs h1) rs = sortedCuts ?cs u kw ku"
    by blast
  have other: "fst (calculateOptimalCutPlan_h srt' n L refs' u kw ku g) = calculateOptimalCutPlan n L ?cs u kw ku"
    if "\<forall>a\<in>set refs'. a < fresh g" and "map (objs g) refs' = ?cs" for refs' g
    using calculateOptimalCutPlan_h_refines [OF assms(2) that(1), of n L u kw ku] that(2) by auto
  have same: "map (objs h') refs = ?cs"
    using old assms(3) by simp
  have wf': "\<forall>a\<in>set refs. a < fresh h'"
    using assms(3) nx by auto
  have stable: "filter (\<lambda>c. length_c c = l) (sortedCuts ?cs u kw ku)
      = filter (\<lambda>c. length_c c = l) (convertedCuts ?cs u kw ku)" for l
  proof -
    have "filter (\<lambda>c. - length_c c = - l) (sort_key (\<lambda>c. - length_c c) (convertedCuts ?cs u kw ku))
        = filter (\<lambda>c. - length_c c = - l) (convertedCuts ?cs u kw ku)"
      by (rule sort_key_stable)
    then show ?thesis by (simp add: sortedCuts_def sort_desc_def)
  qed
  show ?thesis
    unfolding run work(1)
    using same other [OF wf' same] other stable work(2)
    by (simp add: sortedCuts_descending) (simp add: sortedCuts_def sort_desc_def)
qed

theorem C7_deterministic_witness:
  "sort_contract insertion_sort
   \<and> list_all (\<lambda>a. a < fresh \<lparr>objs = (\<lambda>_. \<lparr>length_c = 0, quantity = 0\<rparr>)
         (0 := \<lparr>length_c = 30, quantity = 2\<rparr>, 1 := \<lparr>length_c = 50, quantity = 3\<rparr>,
          2 := \<lparr>length_c = 30, quantity = 1\<rparr>), fresh = 3\<rparr>) [0, 1, 2]
   \<and> (case calculateOptimalCutPlan_h insertion_sort 3 100 [0, 1, 2] Cm 1 Mm
         \<lparr>objs = (\<lambda>_. \<lparr>length_c = 0, quantity = 0\<rparr>)
           (0 := \<lparr>length_c = 30, quantity = 2\<rparr>, 1 := \<lparr>length_c = 50, quantity = 3\<rparr>,
            2 := \<lparr>length_c = 30, quantity = 1\<rparr>), fresh = 3\<rparr> of
        (plans, h') \<Rightarrow>
          plans = [\<lparr>cuts = [50, 30], waste = 19.8\<rparr>, \<lparr>cuts = [50, 30], waste = 19.8\<rparr>,
                   \<lparr>cuts = [50, 30], waste = 19.8\<rparr>]
          \<and> map (objs h') [0, 1, 2]
              = [\<lparr>length_c = 30, quantity = 2\<rparr>, \<lparr>length_c = 50, quantity = 3\<rparr>,
                 \<lparr>length_c = 30, quantity = 1\<rparr>]
          \<and> fst (calculateOptimalCutPlan_h insertion_sort 3 100 [0, 1, 2] Cm 1 Mm h') = plans)"
proof -
  let ?h = "\<lparr>objs = (\<lambda>_. \<lparr>length_c = 0, quantity = 0\<rparr>)
         (0 := \<lparr>length_c = 30, quantity = 2\<rparr>, 1 := \<lparr>length_c = 50, quantity = 3\<rparr>,
          2 := \<lparr>length_c = 30, quantity = 1\<rparr>), fresh = 3\<rparr>"
  have wf: "\<forall>a\<in>set [0, 1, 2]. a < fresh ?h" by simp
  have v: "map (objs ?h) [0, 1, 2] = [\<lparr>length_c = 30, quantity = 2\<rparr>,
      \<lparr>length_c = 50, quantity = 3\<rparr>, \<lparr>length_c = 30, quantity = 1\<rparr>]"
    by simp
  show ?thesis
    using C7_deterministic [OF insertion_sort_contract insertion_sort_contract wf, of 3 100 Cm 1 Mm]
    unfolding v run_three_requests
    by (simp add: insertion_sort_contract split: prod.splits)
qed

end
